theory Spec2Isabelle
  imports Main "HOL-Library.Word"
begin

section \<open>The crust virtual machine: data model\<close>

text \<open>
  The Go sources keep instructions and stack values in slices of \<^verbatim>\<open>interface{}\<close>.
  The only dynamic types the package ever stores there are \<^verbatim>\<open>OpCode\<close> (a byte),
  \<^verbatim>\<open>int\<close>, \<^verbatim>\<open>string\<close> and the nil interface (the zero value of the parser's
  scratch array). Go's \<^verbatim>\<open>int\<close> is taken to be 64 bits wide: a value is a
  \<open>64 word\<close>, read as two's complement by \<open>sint\<close>, and \<open>+\<close> and \<open>-\<close> wrap around.
\<close>

type_synonym OpCode = "8 word"

datatype iface = INil | IOp OpCode | IInt "64 word" | IStr string

definition OpPutln :: OpCode where "OpPutln = 1"
definition OpDup :: OpCode where "OpDup = 2"
definition OpPut :: OpCode where "OpPut = 3"
definition OpJump :: OpCode where "OpJump = 4"
definition OpJumpLessThan :: OpCode where "OpJumpLessThan = 5"
definition OpIpush :: OpCode where "OpIpush = 11"
definition OpIadd :: OpCode where "OpIadd = 12"
definition OpIsubtract :: OpCode where "OpIsubtract = 14"
definition OpSpush :: OpCode where "OpSpush = 21"
definition OpSadd :: OpCode where "OpSadd = 22"

text \<open>
  Every error value the package can return, as one datatype. \<open>EOF\<close> is the sentinel
  \<^verbatim>\<open>io.EOF\<close>; \<open>Wrap\<close> is \<^verbatim>\<open>errors.Wrap\<close> (a message around a cause);
  \<open>AtoiSyntax\<close> and \<open>AtoiRange\<close> are the two failures of \<^verbatim>\<open>strconv.Atoi\<close>;
  \<open>PanicIndexOutOfRange\<close> is the run-time panic of a slice index out of range.
\<close>

datatype error =
    EOF
  | StackIsEmpty
  | ValueNotInt iface
  | ValueNotString iface
  | InvalidJumpIndex
  | NotAnOpCode iface
  | InvalidOpCode OpCode
  | PanicIndexOutOfRange
  | InvalidInstruction string
  | EndOfProgram
  | UnknownArgumentType
  | AtoiSyntax string
  | AtoiRange string
  | Wrap string error

record Program =
  instructions :: "iface list"
  jumpTable :: "int list"

text \<open>
  The interpreter holds its program, the instruction pointer, the operand stack (top of
  stack last, as \<^verbatim>\<open>append\<close> builds it) and the output sink, modelled as the text
  written to it so far. The debug flag only drives \<^verbatim>\<open>log.Printf\<close> and is left out.
\<close>

record Interpreter =
  program :: Program
  ip :: int
  stack :: "iface list"
  stdout :: string

definition NewInterpreter :: "Program \<Rightarrow> Interpreter" where
  "NewInterpreter p = \<lparr>program = p, ip = 0, stack = [], stdout = []\<rparr>"

section \<open>Printing\<close>

text \<open>
  \<^verbatim>\<open>fmt.Fprint\<close> with one operand: an integer in decimal with a leading minus sign
  when negative, a string as it is, a byte-kinded \<^verbatim>\<open>OpCode\<close> as its number.
\<close>

definition digit_char :: "int \<Rightarrow> char" where
  "digit_char d = ''0123456789'' ! nat d"

function itoa_digits :: "int \<Rightarrow> string" where
  "itoa_digits n =
     (if n < 10 then [digit_char n] else itoa_digits (n div 10) @ [digit_char (n mod 10)])"
  by pat_completeness auto
termination
  by (relation "measure nat") auto

declare itoa_digits.simps [simp del]

definition itoa :: "int \<Rightarrow> string" where
  "itoa k = (if k < 0 then CHR ''-'' # itoa_digits (- k) else itoa_digits k)"

definition Fprint :: "iface \<Rightarrow> string" where
  "Fprint v = (case v of
       INil \<Rightarrow> ''<nil>''
     | IOp c \<Rightarrow> itoa_digits (uint c)
     | IInt n \<Rightarrow> itoa (sint n)
     | IStr s \<Rightarrow> s)"

section \<open>The interpreter\<close>

definition push :: "iface \<Rightarrow> Interpreter \<Rightarrow> Interpreter" where
  "push v i = i\<lparr>stack := stack i @ [v]\<rparr>"

definition pop :: "Interpreter \<Rightarrow> (error + iface) \<times> Interpreter" where
  "pop i =
     (if length (stack i) = 0 then (Inl StackIsEmpty, i)
      else (Inr (last (stack i)), i\<lparr>stack := butlast (stack i)\<rparr>))"

definition peek :: "Interpreter \<Rightarrow> (error + iface) \<times> Interpreter" where
  "peek i =
     (if length (stack i) = 0 then (Inl StackIsEmpty, i)
      else (Inr (last (stack i)), i))"

definition asInt :: "iface \<Rightarrow> error + 64 word" where
  "asInt v = (case v of IInt n \<Rightarrow> Inr n | _ \<Rightarrow> Inl (ValueNotInt v))"

definition asString :: "iface \<Rightarrow> error + string" where
  "asString v = (case v of IStr s \<Rightarrow> Inr s | _ \<Rightarrow> Inl (ValueNotString v))"

definition popInt :: "Interpreter \<Rightarrow> (error + 64 word) \<times> Interpreter" where
  "popInt i =
     (case pop i of
        (Inl err, i') \<Rightarrow> (Inl err, i')
      | (Inr v, i') \<Rightarrow> (asInt v, i'))"

definition popString :: "Interpreter \<Rightarrow> (error + string) \<times> Interpreter" where
  "popString i =
     (case pop i of
        (Inl err, i') \<Rightarrow> (Inl err, i')
      | (Inr v, i') \<Rightarrow> (asString v, i'))"

definition toStdout :: "iface \<Rightarrow> Interpreter \<Rightarrow> Interpreter" where
  "toStdout v i = i\<lparr>stdout := stdout i @ Fprint v\<rparr>"

text \<open>
  \<^verbatim>\<open>jump\<close>: the line number is 1-based, the jump table 0-based; \<open>line - 1\<close> wraps
  around as Go's subtraction does.
\<close>

definition jump :: "64 word \<Rightarrow> Interpreter \<Rightarrow> error option \<times> Interpreter" where
  "jump line i =
     (let index = line - 1 in
      if sint index < 0 \<or> int (length (jumpTable (program i))) \<le> sint index
      then (Some InvalidJumpIndex, i)
      else (None, i\<lparr>ip := jumpTable (program i) ! nat (sint index)\<rparr>))"

text \<open>
  \<^verbatim>\<open>nextInstruction\<close> compares the pointer with the length by \<^verbatim>\<open>==\<close> only; a
  pointer outside the slice makes the index expression panic.
\<close>

definition nextInstruction :: "Interpreter \<Rightarrow> (error + iface) \<times> Interpreter" where
  "nextInstruction i =
     (if ip i = int (length (instructions (program i))) then (Inl EOF, i)
      else if ip i < 0 \<or> int (length (instructions (program i))) < ip i
      then (Inl PanicIndexOutOfRange, i)
      else (Inr (instructions (program i) ! nat (ip i)), i\<lparr>ip := ip i + 1\<rparr>))"

definition nextInt :: "Interpreter \<Rightarrow> (error + 64 word) \<times> Interpreter" where
  "nextInt i =
     (case nextInstruction i of
        (Inl err, i') \<Rightarrow> (Inl err, i')
      | (Inr instruction, i') \<Rightarrow> (asInt instruction, i'))"

definition nextString :: "Interpreter \<Rightarrow> (error + string) \<times> Interpreter" where
  "nextString i =
     (case nextInstruction i of
        (Inl err, i') \<Rightarrow> (Inl err, i')
      | (Inr instruction, i') \<Rightarrow> (asString instruction, i'))"

definition executeOp :: "OpCode \<Rightarrow> Interpreter \<Rightarrow> error option \<times> Interpreter" where
  "executeOp op i =
    (if op = OpPutln then (None, toStdout (IStr [CHR 0x0A]) i)
     else if op = OpDup then
       (case peek i of
          (Inl err, i1) \<Rightarrow> (Some err, i1)
        | (Inr v, i1) \<Rightarrow> (None, push v i1))
     else if op = OpPut then
       (case pop i of
          (Inl err, i1) \<Rightarrow> (Some err, i1)
        | (Inr tp, i1) \<Rightarrow> (None, toStdout tp i1))
     else if op = OpJump then
       (case nextInt i of
          (Inl err, i1) \<Rightarrow> (Some err, i1)
        | (Inr line, i1) \<Rightarrow> jump line i1)
     else if op = OpJumpLessThan then
       (case nextInt i of
          (Inl err, i1) \<Rightarrow> (Some err, i1)
        | (Inr v, i1) \<Rightarrow>
            (case nextInt i1 of
               (Inl err, i2) \<Rightarrow> (Some err, i2)
             | (Inr line, i2) \<Rightarrow>
                 (case popInt i2 of
                    (Inl err, i3) \<Rightarrow> (Some err, i3)
                  | (Inr tp, i3) \<Rightarrow>
                      (if tp <s v then (None, snd (jump line i3)) else (None, i3)))))
     else if op = OpIpush then
       (case nextInt i of
          (Inl err, i1) \<Rightarrow> (Some err, i1)
        | (Inr v, i1) \<Rightarrow> (None, push (IInt v) i1))
     else if op = OpIadd then
       (case popInt i of
          (Inl err, i1) \<Rightarrow> (Some err, i1)
        | (Inr a, i1) \<Rightarrow>
            (case popInt i1 of
               (Inl err, i2) \<Rightarrow> (Some err, i2)
             | (Inr b, i2) \<Rightarrow> (None, push (IInt (b + a)) i2)))
     else if op = OpIsubtract then
       (case popInt i of
          (Inl err, i1) \<Rightarrow> (Some err, i1)
        | (Inr a, i1) \<Rightarrow>
            (case popInt i1 of
               (Inl err, i2) \<Rightarrow> (Some err, i2)
             | (Inr b, i2) \<Rightarrow> (None, push (IInt (b - a)) i2)))
     else if op = OpSpush then
       (case nextString i of
          (Inl err, i1) \<Rightarrow> (Some err, i1)
        | (Inr v, i1) \<Rightarrow> (None, push (IStr v) i1))
     else if op = OpSadd then
       (case popString i of
          (Inl err, i1) \<Rightarrow> (Some err, i1)
        | (Inr a, i1) \<Rightarrow>
            (case popString i1 of
               (Inl err, i2) \<Rightarrow> (Some err, i2)
             | (Inr b, i2) \<Rightarrow> (None, push (IStr (b @ a)) i2)))
     else (Some (InvalidOpCode op), i))"

definition Step :: "Interpreter \<Rightarrow> error option \<times> Interpreter" where
  "Step i =
     (case nextInstruction i of
        (Inl err, i1) \<Rightarrow> (Some err, i1)
      | (Inr instruction, i1) \<Rightarrow>
          (case instruction of
             IOp op \<Rightarrow> executeOp op i1
           | _ \<Rightarrow> (Some (NotAnOpCode instruction), i1)))"

text \<open>
  \<^verbatim>\<open>Run\<close> loops for ever on some programs, so it is a partial function: \<open>None\<close>
  is "does not return", \<open>Some (None, i)\<close> is the return value \<^verbatim>\<open>nil\<close> in the final
  state \<open>i\<close>, and \<open>Some (Some err, i)\<close> the return of an error.
\<close>

partial_function (option) Run :: "Interpreter \<Rightarrow> (error option \<times> Interpreter) option" where
  "Run i =
     (case Step i of
        (None, i') \<Rightarrow> Run i'
      | (Some err, i') \<Rightarrow> (if err = EOF then Some (None, i') else Some (Some err, i')))"

text \<open>
  The same loop with a bound on the number of steps: an aid for running concrete
  programs, related to \<open>Run\<close> by \<open>Run_fuel_Run\<close> below.
\<close>

fun Run_fuel :: "nat \<Rightarrow> Interpreter \<Rightarrow> (error option \<times> Interpreter) option" where
  "Run_fuel 0 i = None"
| "Run_fuel (Suc n) i =
     (case Step i of
        (None, i') \<Rightarrow> Run_fuel n i'
      | (Some err, i') \<Rightarrow> (if err = EOF then Some (None, i') else Some (Some err, i')))"

text \<open>
  A caller's sequence of \<^verbatim>\<open>Step()\<close> and \<^verbatim>\<open>Run()\<close> calls on one interpreter,
  whatever they return; \<open>None\<close> when one of the \<^verbatim>\<open>Run()\<close> calls does not return.
\<close>

datatype call = CallStep | CallRun

fun calls :: "call list \<Rightarrow> Interpreter \<Rightarrow> Interpreter option" where
  "calls [] i = Some i"
| "calls (CallStep # cs) i = calls cs (snd (Step i))"
| "calls (CallRun # cs) i = (case Run i of None \<Rightarrow> None | Some (r, i') \<Rightarrow> calls cs i')"

section \<open>The parser\<close>

definition InstructionPutln :: string where "InstructionPutln = ''putln''"
definition InstructionDup :: string where "InstructionDup = ''dup''"
definition InstructionPut :: string where "InstructionPut = ''put''"
definition InstructionJump :: string where "InstructionJump = ''jump''"
definition InstructionJumpLessThan :: string where "InstructionJumpLessThan = ''jumpl''"
definition InstructionIpush :: string where "InstructionIpush = ''ipush''"
definition InstructionIadd :: string where "InstructionIadd = ''iadd''"
definition InstructionIsubtract :: string where "InstructionIsubtract = ''isub''"
definition InstructionSpush :: string where "InstructionSpush = ''spush''"
definition InstructionSadd :: string where "InstructionSadd = ''sadd''"

type_synonym ArgType = int

definition argInt :: ArgType where "argInt = 0"
definition argString :: ArgType where "argString = 1"

record instructionSignature =
  op :: OpCode
  args :: "ArgType list"

definition instructionSignatures :: "string \<rightharpoonup> instructionSignature" where
  "instructionSignatures = map_of
     [(InstructionPutln, \<lparr>op = OpPutln, args = []\<rparr>),
      (InstructionDup, \<lparr>op = OpDup, args = []\<rparr>),
      (InstructionPut, \<lparr>op = OpPut, args = []\<rparr>),
      (InstructionJump, \<lparr>op = OpJump, args = [argInt]\<rparr>),
      (InstructionJumpLessThan, \<lparr>op = OpJumpLessThan, args = [argInt, argInt]\<rparr>),
      (InstructionIpush, \<lparr>op = OpIpush, args = [argInt]\<rparr>),
      (InstructionIadd, \<lparr>op = OpIadd, args = []\<rparr>),
      (InstructionIsubtract, \<lparr>op = OpIsubtract, args = []\<rparr>),
      (InstructionSpush, \<lparr>op = OpSpush, args = [argString]\<rparr>),
      (InstructionSadd, \<lparr>op = OpSadd, args = []\<rparr>)]"

text \<open>
  \<^verbatim>\<open>strconv.Atoi\<close> belongs to Go's standard library. The model follows its
  behaviour for a 64-bit \<^verbatim>\<open>int\<close>: an optional sign, then one or more decimal digits
  and nothing else (a syntax error otherwise), the value within the range of the type
  (a range error otherwise). Digits are read left to right, so whichever fault comes
  first in the text decides the kind of the error.
\<close>

definition is_digit :: "char \<Rightarrow> bool" where
  "is_digit c = (c \<in> set ''0123456789'')"

definition digit_val :: "char \<Rightarrow> int" where
  "digit_val c = of_char c - 48"

fun ParseUint_loop :: "string \<Rightarrow> int \<Rightarrow> string \<Rightarrow> error + int" where
  "ParseUint_loop s0 n [] = Inr n"
| "ParseUint_loop s0 n (c # cs) =
     (if \<not> is_digit c then Inl (AtoiSyntax s0)
      else if 2 ^ 64 \<le> n * 10 + digit_val c then Inl (AtoiRange s0)
      else ParseUint_loop s0 (n * 10 + digit_val c) cs)"

definition Atoi :: "string \<Rightarrow> error + 64 word" where
  "Atoi s =
     (if s = [] then Inl (AtoiSyntax s)
      else
        let neg = (hd s = CHR ''-'');
            s1 = (if hd s = CHR ''+'' \<or> hd s = CHR ''-'' then tl s else s)
        in if s1 = [] then Inl (AtoiSyntax s)
           else (case ParseUint_loop s 0 s1 of
                   Inl err \<Rightarrow> Inl err
                 | Inr un \<Rightarrow>
                     if \<not> neg \<and> 2 ^ 63 \<le> un then Inl (AtoiRange s)
                     else if neg \<and> 2 ^ 63 < un then Inl (AtoiRange s)
                     else Inr (if neg then - word_of_int un else word_of_int un)))"

text \<open>
  The \<^verbatim>\<open>bufio.Scanner\<close> with \<^verbatim>\<open>ScanWords\<close> is modelled by the tokens it still has
  to deliver: \<^verbatim>\<open>Scan()\<close> is false on the empty list and otherwise moves to the next
  token. The underlying reader is assumed not to fail, so \<^verbatim>\<open>Err()\<close> is nil.
\<close>

type_synonym Scanner = "string list"

definition nextInt_scanner :: "Scanner \<Rightarrow> (error + 64 word) \<times> Scanner" where
  "nextInt_scanner sc =
     (case sc of
        [] \<Rightarrow> (Inl EndOfProgram, sc)
      | text # sc' \<Rightarrow> (Atoi text, sc'))"

definition nextString_scanner :: "Scanner \<Rightarrow> (error + string) \<times> Scanner" where
  "nextString_scanner sc =
     (case sc of
        [] \<Rightarrow> (Inl EndOfProgram, sc)
      | text # sc' \<Rightarrow> (Inr text, sc'))"

definition getArgument :: "Scanner \<Rightarrow> ArgType \<Rightarrow> (error + iface) \<times> Scanner" where
  "getArgument sc argType =
     (if argType = argInt then
        (case nextInt_scanner sc of
           (Inl err, sc') \<Rightarrow> (Inl err, sc')
         | (Inr n, sc') \<Rightarrow> (Inr (IInt n), sc'))
      else if argType = argString then
        (case nextString_scanner sc of
           (Inl err, sc') \<Rightarrow> (Inl err, sc')
         | (Inr s, sc') \<Rightarrow> (Inr (IStr s), sc'))
      else (Inl UnknownArgumentType, sc))"

text \<open>
  \<^verbatim>\<open>parseOp\<close> writes the line's cells into the caller's scratch array of 16 cells
  and returns how many it wrote. \<open>parseOp_args\<close> is its loop over the signature's
  argument kinds; a write past the end of the array would panic.
\<close>

fun parseOp_args ::
  "nat \<Rightarrow> ArgType list \<Rightarrow> Scanner \<Rightarrow> iface list \<Rightarrow> error option \<times> Scanner \<times> iface list" where
  "parseOp_args index [] sc arr = (None, sc, arr)"
| "parseOp_args index (argType # rest) sc arr =
     (case getArgument sc argType of
        (Inl err, sc') \<Rightarrow> (Some err, sc', arr)
      | (Inr v, sc') \<Rightarrow>
          (if length arr \<le> 1 + index then (Some PanicIndexOutOfRange, sc', arr)
           else parseOp_args (index + 1) rest sc' (arr[1 + index := v])))"

definition parseOp ::
  "string \<Rightarrow> Scanner \<Rightarrow> iface list \<Rightarrow> (error + nat) \<times> Scanner \<times> iface list" where
  "parseOp token sc arr =
     (case instructionSignatures token of
        None \<Rightarrow> (Inl (InvalidInstruction token), sc, arr)
      | Some signature \<Rightarrow>
          (case parseOp_args 0 (args signature) sc (arr[0 := IOp (op signature)]) of
             (Some err, sc', arr') \<Rightarrow> (Inl err, sc', arr')
           | (None, sc', arr') \<Rightarrow> (Inr (1 + length (args signature)), sc', arr')))"

text \<open>
  \<^verbatim>\<open>parseProgram\<close>: the loop runs while the scanner delivers a token. It ends because
  every round consumes at least the mnemonic.
\<close>

function parseProgram_loop ::
  "Scanner \<Rightarrow> iface list \<Rightarrow> iface list \<Rightarrow> int list \<Rightarrow> error + iface list \<times> int list" where
  "parseProgram_loop [] cur instrs jt = Inr (instrs, jt)"
| "parseProgram_loop (token # sc) cur instrs jt =
     (case parseOp token sc cur of
        (Inl err, sc', cur') \<Rightarrow> Inl (Wrap ''unable to parse op code'' err)
      | (Inr n, sc', cur') \<Rightarrow>
          (if n > 0
           then parseProgram_loop sc' cur' (instrs @ take n cur') (jt @ [int (length instrs)])
           else parseProgram_loop sc' cur' instrs jt))"
  by pat_completeness auto
termination
proof -
  have ga: "length (snd (getArgument sc a)) \<le> length sc" for sc a
    by (cases sc) (simp_all add: getArgument_def nextInt_scanner_def nextString_scanner_def
        split: sum.split)
  have pa: "length (fst (snd (parseOp_args k as sc arr))) \<le> length sc" for k as sc arr
  proof (induction as arbitrary: k sc arr)
    case Nil
    show ?case by simp
  next
    case (Cons a as)
    show ?case
    proof (cases "getArgument sc a")
      case (Pair r sc')
      have le: "length sc' \<le> length sc" using ga [of sc a] Pair by simp
      show ?thesis
      proof (cases r)
        case (Inl e)
        with Pair le show ?thesis by simp
      next
        case (Inr v)
        show ?thesis
          using Pair Inr le Cons.IH [of "k + 1" sc' "arr[1 + k := v]"] by simp
      qed
    qed
  qed
  have po: "length (fst (snd (parseOp t sc arr))) \<le> length sc" for t sc arr
  proof (cases "instructionSignatures t")
    case None
    then show ?thesis by (simp add: parseOp_def)
  next
    case (Some sg)
    obtain r sc' arr' where r: "parseOp_args 0 (args sg) sc (arr[0 := IOp (op sg)]) = (r, sc', arr')"
      by (cases "parseOp_args 0 (args sg) sc (arr[0 := IOp (op sg)])") auto
    with pa [of 0 "args sg" sc "arr[0 := IOp (op sg)]"] have "length sc' \<le> length sc" by simp
    with Some r show ?thesis by (cases r) (simp_all add: parseOp_def)
  qed
  have dec: "length xa < length (token # sc)"
    if "(x, y) = parseOp token sc cur" and "(xa, ya) = y" for x y xa ya token sc cur
  proof -
    from that have "xa = fst (snd (parseOp token sc cur))"
      by (cases "parseOp token sc cur") auto
    with po [of token sc cur] show ?thesis by simp
  qed
  show ?thesis
  proof (relation "measure (\<lambda>(sc, cur, instrs, jt). length sc)", goal_cases)
    case 1
    show ?case by simp
  next
    case (2 token sc cur instrs jt x y b xa ya)
    then show ?case using dec [of x y token sc cur xa ya] by simp
  next
    case (3 token sc cur instrs jt x y b xa ya)
    then show ?case using dec [of x y token sc cur xa ya] by simp
  qed
qed

definition parseProgram :: "Scanner \<Rightarrow> error + iface list \<times> int list" where
  "parseProgram sc = parseProgram_loop sc (replicate 16 INil) [] []"

definition NewProgramFromReader :: "Scanner \<Rightarrow> error + Program" where
  "NewProgramFromReader r =
     (case parseProgram r of
        Inl err \<Rightarrow> Inl (Wrap ''unable to parse r'' err)
      | Inr (instrs, jt) \<Rightarrow> Inr \<lparr>instructions = instrs, jumpTable = jt\<rparr>)"

section \<open>Lines of the instruction sequence\<close>

text \<open>
  Vocabulary for the jump table. A cell is an opcode cell when it holds an
  \<^verbatim>\<open>OpCode\<close>; a line is an opcode cell followed by cells that are not;
  \<open>line_offsets n ls\<close> lists where each of the lines \<open>ls\<close> begins when they are laid
  out one after the other from offset \<open>n\<close>.
\<close>

definition is_opcode_cell :: "iface \<Rightarrow> bool" where
  "is_opcode_cell c = (case c of IOp _ \<Rightarrow> True | _ \<Rightarrow> False)"

definition line_cells :: "iface list \<Rightarrow> bool" where
  "line_cells l =
     (case l of
        [] \<Rightarrow> False
      | c # as \<Rightarrow> is_opcode_cell c \<and> list_all (\<lambda>a. \<not> is_opcode_cell a) as)"

fun line_offsets :: "nat \<Rightarrow> iface list list \<Rightarrow> int list" where
  "line_offsets n [] = []"
| "line_offsets n (l # ls) = int n # line_offsets (n + length l) ls"

text \<open>
  Vocabulary for the argument tokens of a line: \<open>args_accepted kinds ts\<close> holds when
  the tokens \<open>ts\<close> are taken without error as the first arguments of the kinds
  \<open>kinds\<close>; \<open>decimal ds\<close> is the number a string of decimal digits denotes.
\<close>

fun args_accepted :: "ArgType list \<Rightarrow> string list \<Rightarrow> bool" where
  "args_accepted kinds [] = True"
| "args_accepted [] (t # ts) = False"
| "args_accepted (k # kinds) (t # ts) =
     ((k = argString \<or> (k = argInt \<and> (case Atoi t of Inl _ \<Rightarrow> False | Inr _ \<Rightarrow> True)))
      \<and> args_accepted kinds ts)"

definition decimal :: "string \<Rightarrow> int" where
  "decimal ds = foldl (\<lambda>n c. n * 10 + digit_val c) 0 ds"

section \<open>Example programs\<close>

text \<open>
  The counting program of the README, as the scanner delivers it and as the parser
  builds it, with the output it is to write; two two-line programs, one whose
  \<^verbatim>\<open>jumpl\<close> and one whose \<^verbatim>\<open>jump\<close> names line 7; and the hello-world program of
  the README. The scanner splits its input at white space, so the README's lines
  \<^verbatim>\<open>spush hello\<close>, \<^verbatim>\<open>spush  -\<close>, \<^verbatim>\<open>spush world\<close> reach the parser as the tokens of
  \<open>hello_source\<close>, and the same program written with quoted strings,
  \<^verbatim>\<open>spush "hello" spush " - " spush "world" sadd sadd put\<close>, as the tokens of
  \<open>hello_quoted_source\<close>: the quotes are ordinary characters, and \<^verbatim>\<open>" - "\<close> is three
  tokens.
\<close>

definition counting_source :: Scanner where
  "counting_source =
     [''ipush'', ''0'', ''ipush'', ''1'', ''iadd'', ''dup'', ''put'', ''putln'', ''dup'',
      ''jumpl'', ''10'', ''2'']"

definition counting_program :: Program where
  "counting_program =
     \<lparr>instructions =
        [IOp OpIpush, IInt 0, IOp OpIpush, IInt 1, IOp OpIadd, IOp OpDup, IOp OpPut,
         IOp OpPutln, IOp OpDup, IOp OpJumpLessThan, IInt 10, IInt 2],
      jumpTable = [0, 2, 4, 5, 6, 7, 8, 9]\<rparr>"

definition counting_output :: string where
  "counting_output =
     ''1\<newline>2\<newline>3\<newline>4\<newline>5\<newline>6\<newline>7\<newline>8\<newline>9\<newline>10\<newline>''"

definition jumpl_bad_program :: Program where
  "jumpl_bad_program =
     \<lparr>instructions = [IOp OpIpush, IInt 1, IOp OpJumpLessThan, IInt 10, IInt 7],
      jumpTable = [0, 2]\<rparr>"

definition jump_bad_program :: Program where
  "jump_bad_program =
     \<lparr>instructions = [IOp OpIpush, IInt 1, IOp OpJump, IInt 7],
      jumpTable = [0, 2]\<rparr>"

definition hello_source :: Scanner where
  "hello_source =
     [''spush'', ''hello'', ''spush'', ''-'', ''spush'', ''world'', ''sadd'', ''sadd'', ''put'']"

definition hello_program :: Program where
  "hello_program =
     \<lparr>instructions =
        [IOp OpSpush, IStr ''hello'', IOp OpSpush, IStr ''-'', IOp OpSpush, IStr ''world'',
         IOp OpSadd, IOp OpSadd, IOp OpPut],
      jumpTable = [0, 2, 4, 6, 7, 8]\<rparr>"

definition hello_quoted_source :: Scanner where
  "hello_quoted_source =
     [''spush'', [CHR 0x22] @ ''hello'' @ [CHR 0x22],
      ''spush'', [CHR 0x22], ''-'', [CHR 0x22],
      ''spush'', [CHR 0x22] @ ''world'' @ [CHR 0x22],
      ''sadd'', ''sadd'', ''put'']"

section \<open>Basic facts\<close>

lemmas OpCode_defs =
  OpPutln_def OpDup_def OpPut_def OpJump_def OpJumpLessThan_def
  OpIpush_def OpIadd_def OpIsubtract_def OpSpush_def OpSadd_def

lemmas Instruction_defs =
  InstructionPutln_def InstructionDup_def InstructionPut_def InstructionJump_def
  InstructionJumpLessThan_def InstructionIpush_def InstructionIadd_def
  InstructionIsubtract_def InstructionSpush_def InstructionSadd_def

lemma Step_fetch:
  "\<lbrakk>0 \<le> ip i; ip i < int (length (instructions (program i)));
    instructions (program i) ! nat (ip i) = IOp c\<rbrakk>
   \<Longrightarrow> Step i = executeOp c (i\<lparr>ip := ip i + 1\<rparr>)"
  by (simp add: Step_def nextInstruction_def)

lemma pop_snoc: "stack i = st @ [v] \<Longrightarrow> pop i = (Inr v, i\<lparr>stack := st\<rparr>)"
  by (simp add: pop_def)

lemma pop_empty: "stack i = [] \<Longrightarrow> pop i = (Inl StackIsEmpty, i)"
  by (simp add: pop_def)

lemma peek_empty: "stack i = [] \<Longrightarrow> peek i = (Inl StackIsEmpty, i)"
  by (simp add: peek_def)

lemma popInt_snoc: "stack i = st @ [v] \<Longrightarrow> popInt i = (asInt v, i\<lparr>stack := st\<rparr>)"
  by (simp add: popInt_def pop_snoc)

lemma popString_snoc: "stack i = st @ [v] \<Longrightarrow> popString i = (asString v, i\<lparr>stack := st\<rparr>)"
  by (simp add: popString_def pop_snoc)

lemma popInt_empty: "stack i = [] \<Longrightarrow> popInt i = (Inl StackIsEmpty, i)"
  by (simp add: popInt_def pop_empty)

lemma popString_empty: "stack i = [] \<Longrightarrow> popString i = (Inl StackIsEmpty, i)"
  by (simp add: popString_def pop_empty)

lemma executeOp_isub:
  assumes "stack i = st @ [IInt a, IInt b]"
  shows "executeOp OpIsubtract i = (None, i\<lparr>stack := st @ [IInt (a - b)]\<rparr>)"
proof -
  from assms have s1: "stack i = (st @ [IInt a]) @ [IInt b]" by simp
  have p1: "popInt i = (Inr b, i\<lparr>stack := st @ [IInt a]\<rparr>)"
    using popInt_snoc [OF s1] by (simp add: asInt_def)
  have p2: "popInt (i\<lparr>stack := st @ [IInt a]\<rparr>) = (Inr a, i\<lparr>stack := st\<rparr>)"
    using popInt_snoc [of "i\<lparr>stack := st @ [IInt a]\<rparr>" st "IInt a"] by (simp add: asInt_def)
  show ?thesis
    by (simp add: executeOp_def OpCode_defs p1 p2 push_def)
qed

lemma executeOp_sadd:
  assumes "stack i = st @ [IStr a, IStr b]"
  shows "executeOp OpSadd i = (None, i\<lparr>stack := st @ [IStr (a @ b)]\<rparr>)"
proof -
  from assms have s1: "stack i = (st @ [IStr a]) @ [IStr b]" by simp
  have p1: "popString i = (Inr b, i\<lparr>stack := st @ [IStr a]\<rparr>)"
    using popString_snoc [OF s1] by (simp add: asString_def)
  have p2: "popString (i\<lparr>stack := st @ [IStr a]\<rparr>) = (Inr a, i\<lparr>stack := st\<rparr>)"
    using popString_snoc [of "i\<lparr>stack := st @ [IStr a]\<rparr>" st "IStr a"]
    by (simp add: asString_def)
  show ?thesis
    by (simp add: executeOp_def OpCode_defs p1 p2 push_def)
qed

text \<open>Whatever the bounded loop returns, \<open>Run\<close> returns.\<close>

lemma Run_fuel_Run: "Run_fuel n i = Some r \<Longrightarrow> Run i = Some r"
proof (induction n arbitrary: i)
  case 0
  then show ?case by simp
next
  case (Suc n)
  obtain e i' where st: "Step i = (e, i')" by (cases "Step i")
  show ?case
  proof (cases e)
    case None
    with Suc st show ?thesis by (subst Run.simps) simp
  next
    case (Some err)
    with Suc.prems st show ?thesis by (subst Run.simps) (simp split: if_splits)
  qed
qed

text \<open>What a step leaves alone: the program always, the output when it fails.\<close>

lemma pop_frame:
  "pop i = (r, i') \<Longrightarrow> program i' = program i \<and> ip i' = ip i \<and> stdout i' = stdout i
     \<and> (stack i' = stack i \<or> stack i' = butlast (stack i))"
  by (auto simp: pop_def split: if_splits)

lemma popInt_frame:
  "popInt i = (r, i') \<Longrightarrow> program i' = program i \<and> ip i' = ip i \<and> stdout i' = stdout i"
  by (auto simp: popInt_def pop_def split: if_splits)

lemma popString_frame:
  "popString i = (r, i') \<Longrightarrow> program i' = program i \<and> ip i' = ip i \<and> stdout i' = stdout i"
  by (auto simp: popString_def pop_def split: if_splits)

lemma nextInstruction_frame:
  "nextInstruction i = (r, i') \<Longrightarrow> program i' = program i \<and> stack i' = stack i \<and> stdout i' = stdout i"
  by (auto simp: nextInstruction_def split: if_splits)

lemma nextInt_frame:
  "nextInt i = (r, i') \<Longrightarrow> program i' = program i \<and> stack i' = stack i \<and> stdout i' = stdout i"
  by (auto simp: nextInt_def nextInstruction_def split: if_splits)

lemma nextString_frame:
  "nextString i = (r, i') \<Longrightarrow> program i' = program i \<and> stack i' = stack i \<and> stdout i' = stdout i"
  by (auto simp: nextString_def nextInstruction_def split: if_splits)

lemma jump_frame:
  "jump l i = (r, i') \<Longrightarrow> program i' = program i \<and> stack i' = stack i \<and> stdout i' = stdout i"
  by (auto simp: jump_def Let_def split: if_splits)

lemma executeOp_Putln: "executeOp OpPutln i = (None, toStdout (IStr [CHR 0x0A]) i)"
  by (simp add: executeOp_def)

lemma executeOp_Dup:
  "executeOp OpDup i =
     (case peek i of (Inl err, i1) \<Rightarrow> (Some err, i1) | (Inr v, i1) \<Rightarrow> (None, push v i1))"
  by (simp add: executeOp_def OpCode_defs)

lemma executeOp_Put:
  "executeOp OpPut i =
     (case pop i of (Inl err, i1) \<Rightarrow> (Some err, i1) | (Inr tp, i1) \<Rightarrow> (None, toStdout tp i1))"
  by (simp add: executeOp_def OpCode_defs)

lemma executeOp_Jump:
  "executeOp OpJump i =
     (case nextInt i of (Inl err, i1) \<Rightarrow> (Some err, i1) | (Inr line, i1) \<Rightarrow> jump line i1)"
  by (simp add: executeOp_def OpCode_defs)

lemma executeOp_JumpLessThan:
  "executeOp OpJumpLessThan i =
     (case nextInt i of
        (Inl err, i1) \<Rightarrow> (Some err, i1)
      | (Inr v, i1) \<Rightarrow>
          (case nextInt i1 of
             (Inl err, i2) \<Rightarrow> (Some err, i2)
           | (Inr line, i2) \<Rightarrow>
               (case popInt i2 of
                  (Inl err, i3) \<Rightarrow> (Some err, i3)
                | (Inr tp, i3) \<Rightarrow>
                    (if tp <s v then (None, snd (jump line i3)) else (None, i3)))))"
  by (simp add: executeOp_def OpCode_defs)

lemma executeOp_Ipush:
  "executeOp OpIpush i =
     (case nextInt i of (Inl err, i1) \<Rightarrow> (Some err, i1) | (Inr v, i1) \<Rightarrow> (None, push (IInt v) i1))"
  by (simp add: executeOp_def OpCode_defs)

lemma executeOp_Iadd:
  "executeOp OpIadd i =
     (case popInt i of
        (Inl err, i1) \<Rightarrow> (Some err, i1)
      | (Inr a, i1) \<Rightarrow>
          (case popInt i1 of
             (Inl err, i2) \<Rightarrow> (Some err, i2)
           | (Inr b, i2) \<Rightarrow> (None, push (IInt (b + a)) i2)))"
  by (simp add: executeOp_def OpCode_defs)

lemma executeOp_Isubtract:
  "executeOp OpIsubtract i =
     (case popInt i of
        (Inl err, i1) \<Rightarrow> (Some err, i1)
      | (Inr a, i1) \<Rightarrow>
          (case popInt i1 of
             (Inl err, i2) \<Rightarrow> (Some err, i2)
           | (Inr b, i2) \<Rightarrow> (None, push (IInt (b - a)) i2)))"
  by (simp add: executeOp_def OpCode_defs)

lemma executeOp_Spush:
  "executeOp OpSpush i =
     (case nextString i of
        (Inl err, i1) \<Rightarrow> (Some err, i1)
      | (Inr v, i1) \<Rightarrow> (None, push (IStr v) i1))"
  by (simp add: executeOp_def OpCode_defs)

lemma executeOp_Sadd:
  "executeOp OpSadd i =
     (case popString i of
        (Inl err, i1) \<Rightarrow> (Some err, i1)
      | (Inr a, i1) \<Rightarrow>
          (case popString i1 of
             (Inl err, i2) \<Rightarrow> (Some err, i2)
           | (Inr b, i2) \<Rightarrow> (None, push (IStr (b @ a)) i2)))"
  by (simp add: executeOp_def OpCode_defs)

lemma executeOp_other:
  "c \<notin> {OpPutln, OpDup, OpPut, OpJump, OpJumpLessThan, OpIpush, OpIadd, OpIsubtract, OpSpush, OpSadd}
   \<Longrightarrow> executeOp c i = (Some (InvalidOpCode c), i)"
  by (simp add: executeOp_def)

lemmas executeOp_unfold =
  executeOp_Putln executeOp_Dup executeOp_Put executeOp_Jump executeOp_JumpLessThan
  executeOp_Ipush executeOp_Iadd executeOp_Isubtract executeOp_Spush executeOp_Sadd

lemma executeOp_frame:
  assumes "executeOp c i = (r, i')"
  shows "program i' = program i \<and> (r \<noteq> None \<longrightarrow> stdout i' = stdout i)"
proof -
  consider "c = OpPutln" | "c = OpDup" | "c = OpPut" | "c = OpJump" | "c = OpJumpLessThan"
    | "c = OpIpush" | "c = OpIadd" | "c = OpIsubtract" | "c = OpSpush" | "c = OpSadd"
    | "c \<notin> {OpPutln, OpDup, OpPut, OpJump, OpJumpLessThan, OpIpush, OpIadd, OpIsubtract,
         OpSpush, OpSadd}"
    by blast
  then show ?thesis
  proof cases
    case 1
    with assms show ?thesis by (auto simp: executeOp_Putln toStdout_def)
  next
    case 2
    with assms show ?thesis
      by (auto simp: executeOp_Dup peek_def push_def split: if_splits)
  next
    case 3
    with assms show ?thesis
      by (auto simp: executeOp_Put toStdout_def dest!: pop_frame split: prod.splits sum.splits)
  next
    case 4
    with assms show ?thesis
      by (auto simp: executeOp_Jump dest!: nextInt_frame jump_frame split: prod.splits sum.splits)
  next
    case 5
    with assms show ?thesis
      by (auto simp: executeOp_JumpLessThan dest!: nextInt_frame popInt_frame
          split: prod.splits sum.splits if_splits)
        (metis jump_frame prod.collapse)+
  next
    case 6
    with assms show ?thesis
      by (auto simp: executeOp_Ipush push_def dest!: nextInt_frame split: prod.splits sum.splits)
  next
    case 7
    with assms show ?thesis
      by (auto simp: executeOp_Iadd push_def dest!: popInt_frame split: prod.splits sum.splits)
  next
    case 8
    with assms show ?thesis
      by (auto simp: executeOp_Isubtract push_def dest!: popInt_frame
          split: prod.splits sum.splits)
  next
    case 9
    with assms show ?thesis
      by (auto simp: executeOp_Spush push_def dest!: nextString_frame
          split: prod.splits sum.splits)
  next
    case 10
    with assms show ?thesis
      by (auto simp: executeOp_Sadd push_def dest!: popString_frame split: prod.splits sum.splits)
  next
    case 11
    with assms show ?thesis by (auto simp: executeOp_other)
  qed
qed

lemma Step_frame:
  assumes "Step i = (r, i')"
  shows "program i' = program i \<and> (r \<noteq> None \<longrightarrow> stdout i' = stdout i)"
proof (cases "nextInstruction i")
  case (Pair x i1)
  then have p: "program i1 = program i" "stdout i1 = stdout i"
    by (simp_all add: nextInstruction_frame)
  show ?thesis
  proof (cases x)
    case (Inl e)
    with Pair p assms show ?thesis by (auto simp add: Step_def)
  next
    case (Inr instr)
    show ?thesis
    proof (cases instr)
      case (IOp c)
      with Inr Pair assms have "executeOp c i1 = (r, i')" by (simp add: Step_def)
      from executeOp_frame [OF this] p show ?thesis by simp
    qed (use Inr Pair p assms in \<open>auto simp add: Step_def\<close>)
  qed
qed

text \<open>The program is the same after \<open>Run\<close> and after any sequence of calls.\<close>

lemma Run_frame_snd:
  assumes "Run i = Some y"
  shows "program (snd y) = program i"
proof (rule Run.raw_induct [where P = "\<lambda>i y. program (snd y) = program i", OF _ assms])
  fix R :: "Interpreter \<Rightarrow> (error option \<times> Interpreter) option" and i y
  assume IH: "\<And>x y. R x = Some y \<Longrightarrow> program (snd y) = program x"
    and body: "(case Step i of
        (None, i') \<Rightarrow> R i'
      | (Some err, i') \<Rightarrow> (if err = EOF then Some (None, i') else Some (Some err, i')))
      = Some y"
  obtain e i1 where st: "Step i = (e, i1)" by (cases "Step i")
  then have p: "program i1 = program i" using Step_frame by blast
  show "program (snd y) = program i"
  proof (cases e)
    case None
    with body st have "R i1 = Some y" by simp
    from IH [OF this] p show ?thesis by simp
  next
    case (Some err)
    with body st have "snd y = i1" by (cases "err = EOF") auto
    with p show ?thesis by simp
  qed
qed

lemma Run_frame: "Run i = Some (r, i') \<Longrightarrow> program i' = program i"
  using Run_frame_snd [of i "(r, i')"] by simp

lemma calls_frame: "calls cs i = Some i' \<Longrightarrow> program i' = program i"
proof (induction cs arbitrary: i)
  case Nil
  then show ?case by simp
next
  case (Cons c cs)
  show ?case
  proof (cases c)
    case CallStep
    with Cons.prems have "calls cs (snd (Step i)) = Some i'" by simp
    from Cons.IH [OF this] have "program i' = program (snd (Step i))" .
    also have "\<dots> = program i" using Step_frame [of i] by (cases "Step i") simp
    finally show ?thesis .
  next
    case CallRun
    with Cons.prems obtain r i1 where run: "Run i = Some (r, i1)" and rest: "calls cs i1 = Some i'"
      by (cases "Run i") auto
    from Cons.IH [OF rest] Run_frame [OF run] show ?thesis by simp
  qed
qed












section \<open>Subtraction and concatenation keep the push order\<close>

text \<open>
  Claim C2. When the next instruction is \<^verbatim>\<open>isub\<close> and the two topmost stack values
  are the integers \<open>a\<close> (pushed earlier) and \<open>b\<close> (pushed later, on top), the step
  succeeds, removes both and pushes \<open>a - b\<close> (64-bit subtraction): the earlier operand
  minus the later one. The source text \<^verbatim>\<open>ipush 5 ipush 3 isub put\<close> parses, runs to
  completion without error and writes \<^verbatim>\<open>2\<close>.
\<close>

theorem isub_earlier_minus_later:
  "(0 \<le> ip i \<and> ip i < int (length (instructions (program i)))
      \<and> instructions (program i) ! nat (ip i) = IOp OpIsubtract
      \<and> stack i = st @ [IInt a, IInt b]
     \<longrightarrow> Step i = (None, i\<lparr>ip := ip i + 1, stack := st @ [IInt (a - b)]\<rparr>))
   \<and> (case NewProgramFromReader [''ipush'', ''5'', ''ipush'', ''3'', ''isub'', ''put''] of
         Inl err \<Rightarrow> None
       | Inr p \<Rightarrow> Run (NewInterpreter p))
     = Some (None,
         \<lparr>program = \<lparr>instructions =
                       [IOp OpIpush, IInt 5, IOp OpIpush, IInt 3, IOp OpIsubtract, IOp OpPut],
                     jumpTable = [0, 2, 4, 5]\<rparr>,
          ip = 6, stack = [], stdout = ''2''\<rparr>)"
proof (intro conjI impI)
  assume h: "0 \<le> ip i \<and> ip i < int (length (instructions (program i)))
      \<and> instructions (program i) ! nat (ip i) = IOp OpIsubtract
      \<and> stack i = st @ [IInt a, IInt b]"
  then have "Step i = executeOp OpIsubtract (i\<lparr>ip := ip i + 1\<rparr>)"
    by (simp add: Step_fetch)
  also have "\<dots> = (None, i\<lparr>ip := ip i + 1, stack := st @ [IInt (a - b)]\<rparr>)"
    using h executeOp_isub [of "i\<lparr>ip := ip i + 1\<rparr>" st a b] by simp
  finally show "Step i = (None, i\<lparr>ip := ip i + 1, stack := st @ [IInt (a - b)]\<rparr>)" .
next
  have parse: "NewProgramFromReader [''ipush'', ''5'', ''ipush'', ''3'', ''isub'', ''put'']
      = Inr \<lparr>instructions =
               [IOp OpIpush, IInt 5, IOp OpIpush, IInt 3, IOp OpIsubtract, IOp OpPut],
             jumpTable = [0, 2, 4, 5]\<rparr>"
    by code_simp
  have "Run_fuel 8 (NewInterpreter \<lparr>instructions =
               [IOp OpIpush, IInt 5, IOp OpIpush, IInt 3, IOp OpIsubtract, IOp OpPut],
             jumpTable = [0, 2, 4, 5]\<rparr>)
       = Some (None,
         \<lparr>program = \<lparr>instructions =
                       [IOp OpIpush, IInt 5, IOp OpIpush, IInt 3, IOp OpIsubtract, IOp OpPut],
                     jumpTable = [0, 2, 4, 5]\<rparr>,
          ip = 6, stack = [], stdout = ''2''\<rparr>)"
    by code_simp
  then show "(case NewProgramFromReader [''ipush'', ''5'', ''ipush'', ''3'', ''isub'', ''put''] of
         Inl err \<Rightarrow> None
       | Inr p \<Rightarrow> Run (NewInterpreter p))
     = Some (None,
         \<lparr>program = \<lparr>instructions =
                       [IOp OpIpush, IInt 5, IOp OpIpush, IInt 3, IOp OpIsubtract, IOp OpPut],
                     jumpTable = [0, 2, 4, 5]\<rparr>,
          ip = 6, stack = [], stdout = ''2''\<rparr>)"
    by (simp add: parse Run_fuel_Run)
qed

theorem isub_earlier_minus_later_witness:
  "(0::int) \<le> 0 \<and> (0::int) < int (length [IOp OpIsubtract])
   \<and> [IOp OpIsubtract] ! nat 0 = IOp OpIsubtract
   \<and> Step \<lparr>program = \<lparr>instructions = [IOp OpIsubtract], jumpTable = [0]\<rparr>,
            ip = 0, stack = [IInt 5, IInt 3], stdout = []\<rparr>
     = (None, \<lparr>program = \<lparr>instructions = [IOp OpIsubtract], jumpTable = [0]\<rparr>,
               ip = 1, stack = [IInt 2], stdout = []\<rparr>)"
  using isub_earlier_minus_later
    [of "\<lparr>program = \<lparr>instructions = [IOp OpIsubtract], jumpTable = [0]\<rparr>,
          ip = 0, stack = [IInt 5, IInt 3], stdout = []\<rparr>" "[]" 5 3]
  by simp

text \<open>
  Claim C5 does not hold of its example. The README's hello-world source parses to
  \<open>hello_program\<close>, whose second string is \<^verbatim>\<open>-\<close> without the blanks, and running it
  writes \<^verbatim>\<open>hello-world\<close>, not \<^verbatim>\<open>hello - world\<close>. Written with quoted strings the
  source does not parse at all: after \<^verbatim>\<open>spush "\<close> the parser reads \<^verbatim>\<open>-\<close> as a mnemonic
  and rejects it.
\<close>

theorem hello_world_blanks_counterexample:
  "NewProgramFromReader hello_source = Inr hello_program
   \<and> Run (NewInterpreter hello_program)
     = Some (None, \<lparr>program = hello_program, ip = 9, stack = [], stdout = ''hello-world''\<rparr>)
   \<and> NewProgramFromReader hello_quoted_source
     = Inl (Wrap ''unable to parse r''
         (Wrap ''unable to parse op code'' (InvalidInstruction ''-'')))"
proof (intro conjI)
  show "NewProgramFromReader hello_source = Inr hello_program"
    by code_simp
  have "Run_fuel 8 (NewInterpreter hello_program)
     = Some (None, \<lparr>program = hello_program, ip = 9, stack = [], stdout = ''hello-world''\<rparr>)"
    by code_simp
  then show "Run (NewInterpreter hello_program)
     = Some (None, \<lparr>program = hello_program, ip = 9, stack = [], stdout = ''hello-world''\<rparr>)"
    by (rule Run_fuel_Run)
  show "NewProgramFromReader hello_quoted_source
     = Inl (Wrap ''unable to parse r''
         (Wrap ''unable to parse op code'' (InvalidInstruction ''-'')))"
    by code_simp
qed

text \<open>
  Claim C5, amended. When the next instruction is \<^verbatim>\<open>sadd\<close> and the two topmost stack
  values are the strings \<open>a\<close> (pushed earlier) and \<open>b\<close> (pushed later, on top), the step
  succeeds, removes both and pushes \<open>a\<close> followed by \<open>b\<close>. The source
  \<^verbatim>\<open>spush hello spush - spush world sadd sadd put\<close> parses, and the parsed program runs
  to completion without error, with the stack empty, having written \<^verbatim>\<open>hello-world\<close>.
\<close>

theorem sadd_earlier_then_later:
  "(0 \<le> ip i \<and> ip i < int (length (instructions (program i)))
      \<and> instructions (program i) ! nat (ip i) = IOp OpSadd
      \<and> stack i = st @ [IStr a, IStr b]
     \<longrightarrow> Step i = (None, i\<lparr>ip := ip i + 1, stack := st @ [IStr (a @ b)]\<rparr>))
   \<and> NewProgramFromReader hello_source = Inr hello_program
   \<and> Run (NewInterpreter hello_program)
     = Some (None, \<lparr>program = hello_program, ip = 9, stack = [], stdout = ''hello-world''\<rparr>)"
proof (intro conjI impI)
  assume h: "0 \<le> ip i \<and> ip i < int (length (instructions (program i)))
      \<and> instructions (program i) ! nat (ip i) = IOp OpSadd
      \<and> stack i = st @ [IStr a, IStr b]"
  then have "Step i = executeOp OpSadd (i\<lparr>ip := ip i + 1\<rparr>)"
    by (simp add: Step_fetch)
  also have "\<dots> = (None, i\<lparr>ip := ip i + 1, stack := st @ [IStr (a @ b)]\<rparr>)"
    using h executeOp_sadd [of "i\<lparr>ip := ip i + 1\<rparr>" st a b] by simp
  finally show "Step i = (None, i\<lparr>ip := ip i + 1, stack := st @ [IStr (a @ b)]\<rparr>)" .
next
  show "NewProgramFromReader hello_source = Inr hello_program"
    by code_simp
next
  have "Run_fuel 8 (NewInterpreter hello_program)
     = Some (None, \<lparr>program = hello_program, ip = 9, stack = [], stdout = ''hello-world''\<rparr>)"
    by code_simp
  then show "Run (NewInterpreter hello_program)
     = Some (None, \<lparr>program = hello_program, ip = 9, stack = [], stdout = ''hello-world''\<rparr>)"
    by (rule Run_fuel_Run)
qed

theorem sadd_earlier_then_later_witness:
  "(0::int) \<le> 0 \<and> (0::int) < int (length [IOp OpSadd])
   \<and> [IOp OpSadd] ! nat 0 = IOp OpSadd
   \<and> Step \<lparr>program = \<lparr>instructions = [IOp OpSadd], jumpTable = [0]\<rparr>,
            ip = 0, stack = [IStr ''ab'', IStr ''cd''], stdout = []\<rparr>
     = (None, \<lparr>program = \<lparr>instructions = [IOp OpSadd], jumpTable = [0]\<rparr>,
               ip = 1, stack = [IStr ''abcd''], stdout = []\<rparr>)"
  using sadd_earlier_then_later
    [of "\<lparr>program = \<lparr>instructions = [IOp OpSadd], jumpTable = [0]\<rparr>,
          ip = 0, stack = [IStr ''ab'', IStr ''cd''], stdout = []\<rparr>" "[]" "''ab''" "''cd''"]
  by simp

section \<open>End of program\<close>



section \<open>The program is never written to\<close>

text \<open>
  Claim C9. The interpreter holds its program as a field of its state. A step returns a
  state with the same program; so does \<^verbatim>\<open>Run()\<close> whenever it returns; and after any
  sequence of \<^verbatim>\<open>Step()\<close> and \<^verbatim>\<open>Run()\<close> calls on an interpreter made by
  \<^verbatim>\<open>NewInterpreter\<close> for \<open>p\<close>, the program is \<open>p\<close>, with the instruction sequence
  and the jump table it had. Only pointer, stack and output change.
\<close>

theorem program_never_mutated:
  "program (snd (Step i)) = program i
   \<and> (Run i = Some (r, i') \<longrightarrow> program i' = program i)
   \<and> (calls cs (NewInterpreter p) = Some i'' \<longrightarrow>
        program i'' = p
        \<and> instructions (program i'') = instructions p
        \<and> jumpTable (program i'') = jumpTable p)"
proof (intro conjI impI)
  show "program (snd (Step i)) = program i"
    using Step_frame [of i] by (cases "Step i") simp
next
  assume "Run i = Some (r, i')"
  then show "program i' = program i" by (rule Run_frame)
next
  assume "calls cs (NewInterpreter p) = Some i''"
  then have "program i'' = program (NewInterpreter p)" by (rule calls_frame)
  then show p: "program i'' = p" by (simp add: NewInterpreter_def)
  then show "instructions (program i'') = instructions p"
    and "jumpTable (program i'') = jumpTable p" by simp_all
qed

theorem program_never_mutated_witness:
  "calls [CallStep, CallRun, CallStep]
     (NewInterpreter \<lparr>instructions =
         [IOp OpIpush, IInt 5, IOp OpIpush, IInt 3, IOp OpIsubtract, IOp OpPut],
       jumpTable = [0, 2, 4, 5]\<rparr>)
   = Some \<lparr>program = \<lparr>instructions =
                [IOp OpIpush, IInt 5, IOp OpIpush, IInt 3, IOp OpIsubtract, IOp OpPut],
              jumpTable = [0, 2, 4, 5]\<rparr>,
           ip = 6, stack = [], stdout = ''2''\<rparr>
   \<and> program \<lparr>program = \<lparr>instructions =
                [IOp OpIpush, IInt 5, IOp OpIpush, IInt 3, IOp OpIsubtract, IOp OpPut],
              jumpTable = [0, 2, 4, 5]\<rparr>,
           ip = 6, stack = [], stdout = ''2''\<rparr>
     = \<lparr>instructions =
         [IOp OpIpush, IInt 5, IOp OpIpush, IInt 3, IOp OpIsubtract, IOp OpPut],
       jumpTable = [0, 2, 4, 5]\<rparr>"
proof -
  let ?p = "\<lparr>instructions =
         [IOp OpIpush, IInt 5, IOp OpIpush, IInt 3, IOp OpIsubtract, IOp OpPut],
       jumpTable = [0, 2, 4, 5]\<rparr>"
  let ?i1 = "\<lparr>program = ?p, ip = 2, stack = [IInt 5], stdout = []\<rparr>"
  let ?f = "\<lparr>program = ?p, ip = 6, stack = [], stdout = ''2''\<rparr>"
  have st1: "Step (NewInterpreter ?p) = (None, ?i1)" by code_simp
  have "Run_fuel 8 ?i1 = Some (None, ?f)" by code_simp
  then have run: "Run ?i1 = Some (None, ?f)" by (rule Run_fuel_Run)
  have st2: "Step ?f = (Some EOF, ?f)" by code_simp
  have c: "calls [CallStep, CallRun, CallStep] (NewInterpreter ?p) = Some ?f"
    by (simp add: st1 run st2)
  from program_never_mutated [of _ _ _ "[CallStep, CallRun, CallStep]" ?p ?f] c
  show ?thesis by simp
qed

section \<open>Errors and the operand stack\<close>

lemma sint_pred_64:
  fixes L :: "64 word"
  shows "sint (L - 1) = (if sint L = - (2 ^ 63) then 2 ^ 63 - 1 else sint L - 1)"
proof -
  have d: "sint (L - 1) = signed_take_bit 63 (sint L - 1)"
    using sint_word_diff [of L 1] by simp
  have ge: "- (2 ^ 63) \<le> sint L" using sint_ge [of L] by simp
  have lt: "sint L < 2 ^ 63" using sint_lt [of L] by simp
  show ?thesis
  proof (cases "sint L = - (2 ^ 63)")
    case True
    then show ?thesis using d by simp
  next
    case False
    with ge have "- (2 ^ 63) \<le> sint L - 1" by simp
    moreover from lt have "sint L - 1 < 2 ^ 63" by simp
    ultimately have "signed_take_bit 63 (sint L - 1) = sint L - 1"
      by (simp add: signed_take_bit_int_eq_self)
    with d False show ?thesis by simp
  qed
qed

lemma jump_invalid:
  assumes "sint L < 1 \<or> int (length (jumpTable (program i))) < sint L"
    and "int (length (jumpTable (program i))) < 2 ^ 63"
  shows "jump L i = (Some InvalidJumpIndex, i)"
  using assms by (auto simp: jump_def Let_def sint_pred_64)

lemma nextInt_at:
  "\<lbrakk>0 \<le> ip i; ip i < int (length (instructions (program i)));
    instructions (program i) ! nat (ip i) = IInt v\<rbrakk>
   \<Longrightarrow> nextInt i = (Inr v, i\<lparr>ip := ip i + 1\<rparr>)"
  by (simp add: nextInt_def nextInstruction_def asInt_def)

lemma popInt_nonempty:
  "stack i \<noteq> [] \<Longrightarrow> popInt i = (asInt (last (stack i)), i\<lparr>stack := butlast (stack i)\<rparr>)"
  by (simp add: popInt_def pop_def)

lemma popString_nonempty:
  "stack i \<noteq> [] \<Longrightarrow> popString i = (asString (last (stack i)), i\<lparr>stack := butlast (stack i)\<rparr>)"
  by (simp add: popString_def pop_def)

lemma asInt_error: "asInt v = Inl e \<Longrightarrow> e = ValueNotInt v"
  by (cases v) (simp_all add: asInt_def)

lemma asString_error: "asString v = Inl e \<Longrightarrow> e = ValueNotString v"
  by (cases v) (simp_all add: asString_def)

text \<open>
  Two pops in a row, as \<^verbatim>\<open>iadd\<close>, \<^verbatim>\<open>isub\<close> and \<^verbatim>\<open>sadd\<close> do them; \<open>k\<close> stands
  for the push that follows.
\<close>

lemma two_popInt_error:
  assumes ne: "stack i \<noteq> []"
    and ex: "(case popInt i of
        (Inl err, i1) \<Rightarrow> (Some err, i1)
      | (Inr a, i1) \<Rightarrow>
          (case popInt i1 of
             (Inl err, i2) \<Rightarrow> (Some err, i2)
           | (Inr b, i2) \<Rightarrow> (None, k a b i2))) = (Some e, i')"
  shows "(i' = i\<lparr>stack := butlast (stack i)\<rparr> \<or> i' = i\<lparr>stack := butlast (butlast (stack i))\<rparr>)
     \<and> (e = StackIsEmpty \<or> (\<exists>v. e = ValueNotInt v))"
proof (cases "asInt (last (stack i))")
  case (Inl err)
  with ex ne show ?thesis by (auto simp: popInt_nonempty dest: asInt_error)
next
  case (Inr a)
  show ?thesis
  proof (cases "butlast (stack i) = []")
    case True
    with Inr ex ne show ?thesis
      by (auto simp: popInt_nonempty popInt_empty)
  next
    case False
    then have p2: "popInt (i\<lparr>stack := butlast (stack i)\<rparr>)
        = (asInt (last (butlast (stack i))), i\<lparr>stack := butlast (butlast (stack i))\<rparr>)"
      using popInt_nonempty [of "i\<lparr>stack := butlast (stack i)\<rparr>"] by simp
    show ?thesis
    proof (cases "asInt (last (butlast (stack i)))")
      case (Inl err)
      with Inr ex ne p2 show ?thesis by (auto simp: popInt_nonempty dest: asInt_error)
    next
      case (Inr b)
      with \<open>asInt (last (stack i)) = Inr a\<close> ex ne p2 show ?thesis
        by (simp add: popInt_nonempty)
    qed
  qed
qed

lemma two_popString_error:
  assumes ne: "stack i \<noteq> []"
    and ex: "(case popString i of
        (Inl err, i1) \<Rightarrow> (Some err, i1)
      | (Inr a, i1) \<Rightarrow>
          (case popString i1 of
             (Inl err, i2) \<Rightarrow> (Some err, i2)
           | (Inr b, i2) \<Rightarrow> (None, k a b i2))) = (Some e, i')"
  shows "(i' = i\<lparr>stack := butlast (stack i)\<rparr> \<or> i' = i\<lparr>stack := butlast (butlast (stack i))\<rparr>)
     \<and> (e = StackIsEmpty \<or> (\<exists>v. e = ValueNotString v))"
proof (cases "asString (last (stack i))")
  case (Inl err)
  with ex ne show ?thesis by (auto simp: popString_nonempty dest: asString_error)
next
  case (Inr a)
  show ?thesis
  proof (cases "butlast (stack i) = []")
    case True
    with Inr ex ne show ?thesis
      by (auto simp: popString_nonempty popString_empty)
  next
    case False
    then have p2: "popString (i\<lparr>stack := butlast (stack i)\<rparr>)
        = (asString (last (butlast (stack i))), i\<lparr>stack := butlast (butlast (stack i))\<rparr>)"
      using popString_nonempty [of "i\<lparr>stack := butlast (stack i)\<rparr>"] by simp
    show ?thesis
    proof (cases "asString (last (butlast (stack i)))")
      case (Inl err)
      with Inr ex ne p2 show ?thesis by (auto simp: popString_nonempty dest: asString_error)
    next
      case (Inr b)
      with \<open>asString (last (stack i)) = Inr a\<close> ex ne p2 show ?thesis
        by (simp add: popString_nonempty)
    qed
  qed
qed

lemma executeOp_arith_error:
  assumes c: "c \<in> {OpIadd, OpIsubtract, OpSadd}"
    and ne: "stack i \<noteq> []"
    and ex: "executeOp c i = (Some e, i')"
  shows "(i' = i\<lparr>stack := butlast (stack i)\<rparr> \<or> i' = i\<lparr>stack := butlast (butlast (stack i))\<rparr>)
     \<and> (e = StackIsEmpty \<or> (\<exists>v. e = ValueNotInt v) \<or> (\<exists>v. e = ValueNotString v))"
proof -
  from c consider "c = OpIadd" | "c = OpIsubtract" | "c = OpSadd" by blast
  then show ?thesis
  proof cases
    case 1
    with ex have "(case popInt i of
        (Inl err, i1) \<Rightarrow> (Some err, i1)
      | (Inr a, i1) \<Rightarrow>
          (case popInt i1 of
             (Inl err, i2) \<Rightarrow> (Some err, i2)
           | (Inr b, i2) \<Rightarrow> (None, (\<lambda>a b. push (IInt (b + a))) a b i2))) = (Some e, i')"
      by (simp add: executeOp_Iadd)
    from two_popInt_error [OF ne this] show ?thesis by blast
  next
    case 2
    with ex have "(case popInt i of
        (Inl err, i1) \<Rightarrow> (Some err, i1)
      | (Inr a, i1) \<Rightarrow>
          (case popInt i1 of
             (Inl err, i2) \<Rightarrow> (Some err, i2)
           | (Inr b, i2) \<Rightarrow> (None, (\<lambda>a b. push (IInt (b - a))) a b i2))) = (Some e, i')"
      by (simp add: executeOp_Isubtract)
    from two_popInt_error [OF ne this] show ?thesis by blast
  next
    case 3
    with ex have "(case popString i of
        (Inl err, i1) \<Rightarrow> (Some err, i1)
      | (Inr a, i1) \<Rightarrow>
          (case popString i1 of
             (Inl err, i2) \<Rightarrow> (Some err, i2)
           | (Inr b, i2) \<Rightarrow> (None, (\<lambda>a b. push (IStr (b @ a))) a b i2))) = (Some e, i')"
      by (simp add: executeOp_Sadd)
    from two_popString_error [OF ne this] show ?thesis by blast
  qed
qed


lemma executeOp_arith_empty:
  assumes "c \<in> {OpIadd, OpIsubtract, OpSadd}" and "stack i = []"
  shows "executeOp c i = (Some StackIsEmpty, i)"
  using assms
  by (auto simp: executeOp_Iadd executeOp_Isubtract executeOp_Sadd popInt_empty popString_empty)

text \<open>
  Claim C10. When \<^verbatim>\<open>iadd\<close>, \<^verbatim>\<open>isub\<close> or \<^verbatim>\<open>sadd\<close> fails with a kind
  mismatch, or with an empty stack at the second pop (that is: the error is not the
  empty-stack error, or the stack was not empty), the values popped before the failure
  are not pushed back: the stack after the step is the stack before without its last
  one or two values, hence strictly shorter, and nothing is written to the output. The
  three ways this happens for the integer operations are given in full: a text value on
  top, a lone integer, and a text value under an integer.
\<close>

theorem failed_arithmetic_loses_operands:
  "(0 \<le> ip i \<and> ip i < int (length (instructions (program i)))
      \<and> instructions (program i) ! nat (ip i) = IOp c
      \<and> c \<in> {OpIadd, OpIsubtract, OpSadd}
      \<and> Step i = (Some e, i') \<and> (e \<noteq> StackIsEmpty \<or> stack i \<noteq> [])
     \<longrightarrow> length (stack i') < length (stack i)
         \<and> (stack i' = butlast (stack i) \<or> stack i' = butlast (butlast (stack i)))
         \<and> stdout i' = stdout i
         \<and> (e = StackIsEmpty \<or> (\<exists>v. e = ValueNotInt v) \<or> (\<exists>v. e = ValueNotString v)))
   \<and> (0 \<le> ip i \<and> ip i < int (length (instructions (program i)))
      \<and> instructions (program i) ! nat (ip i) = IOp c \<and> c \<in> {OpIadd, OpIsubtract}
     \<longrightarrow> (stack i = st @ [IStr s] \<longrightarrow>
            Step i = (Some (ValueNotInt (IStr s)), i\<lparr>ip := ip i + 1, stack := st\<rparr>))
         \<and> (stack i = [IInt a] \<longrightarrow>
            Step i = (Some StackIsEmpty, i\<lparr>ip := ip i + 1, stack := []\<rparr>))
         \<and> (stack i = st @ [IStr s, IInt a] \<longrightarrow>
            Step i = (Some (ValueNotInt (IStr s)), i\<lparr>ip := ip i + 1, stack := st\<rparr>)))"
proof (intro conjI impI)
  assume h: "0 \<le> ip i \<and> ip i < int (length (instructions (program i)))
      \<and> instructions (program i) ! nat (ip i) = IOp c
      \<and> c \<in> {OpIadd, OpIsubtract, OpSadd}
      \<and> Step i = (Some e, i') \<and> (e \<noteq> StackIsEmpty \<or> stack i \<noteq> [])"
  let ?j = "i\<lparr>ip := ip i + 1\<rparr>"
  from h have "Step i = executeOp c ?j" using Step_fetch [of i c] by blast
  with h have ex: "executeOp c ?j = (Some e, i')" by simp
  from h have c: "c \<in> {OpIadd, OpIsubtract, OpSadd}" by simp
  have ne: "stack ?j \<noteq> []"
  proof
    assume "stack ?j = []"
    with executeOp_arith_empty [OF c this] ex h show False by simp
  qed
  from executeOp_arith_error [OF c ne ex]
  have shape: "i' = ?j\<lparr>stack := butlast (stack ?j)\<rparr> \<or> i' = ?j\<lparr>stack := butlast (butlast (stack ?j))\<rparr>"
    and kind: "e = StackIsEmpty \<or> (\<exists>v. e = ValueNotInt v) \<or> (\<exists>v. e = ValueNotString v)"
    by blast+
  from shape show st: "stack i' = butlast (stack i) \<or> stack i' = butlast (butlast (stack i))"
    by auto
  from ne have "0 < length (stack i)" by simp
  with st show "length (stack i') < length (stack i)" by auto
  from shape show "stdout i' = stdout i" by auto
  from kind show "e = StackIsEmpty \<or> (\<exists>v. e = ValueNotInt v) \<or> (\<exists>v. e = ValueNotString v)" .
next
  assume h: "0 \<le> ip i \<and> ip i < int (length (instructions (program i)))
      \<and> instructions (program i) ! nat (ip i) = IOp c \<and> c \<in> {OpIadd, OpIsubtract}"
  let ?j = "i\<lparr>ip := ip i + 1\<rparr>"
  from h have fetch: "Step i = executeOp c ?j" using Step_fetch [of i c] by blast
  from h have c: "c = OpIadd \<or> c = OpIsubtract" by simp
  {
    assume s: "stack i = st @ [IStr s]"
    then have "popInt ?j = (Inl (ValueNotInt (IStr s)), ?j\<lparr>stack := st\<rparr>)"
      using popInt_snoc [of ?j st "IStr s"] by (simp add: asInt_def)
    with c fetch show "Step i = (Some (ValueNotInt (IStr s)), i\<lparr>ip := ip i + 1, stack := st\<rparr>)"
      by (auto simp: executeOp_Iadd executeOp_Isubtract)
  }
  {
    assume s: "stack i = [IInt a]"
    then have "popInt ?j = (Inr a, ?j\<lparr>stack := []\<rparr>)"
      using popInt_snoc [of ?j "[]" "IInt a"] by (simp add: asInt_def)
    moreover have "popInt (?j\<lparr>stack := []\<rparr>) = (Inl StackIsEmpty, ?j\<lparr>stack := []\<rparr>)"
      by (simp add: popInt_empty)
    ultimately show "Step i = (Some StackIsEmpty, i\<lparr>ip := ip i + 1, stack := []\<rparr>)"
      using c fetch by (auto simp: executeOp_Iadd executeOp_Isubtract)
  }
  {
    assume s: "stack i = st @ [IStr s, IInt a]"
    then have "stack ?j = (st @ [IStr s]) @ [IInt a]" by simp
    then have "popInt ?j = (Inr a, ?j\<lparr>stack := st @ [IStr s]\<rparr>)"
      using popInt_snoc [of ?j "st @ [IStr s]" "IInt a"] by (simp add: asInt_def)
    moreover have "popInt (?j\<lparr>stack := st @ [IStr s]\<rparr>)
        = (Inl (ValueNotInt (IStr s)), ?j\<lparr>stack := st\<rparr>)"
      using popInt_snoc [of "?j\<lparr>stack := st @ [IStr s]\<rparr>" st "IStr s"] by (simp add: asInt_def)
    ultimately show "Step i = (Some (ValueNotInt (IStr s)), i\<lparr>ip := ip i + 1, stack := st\<rparr>)"
      using c fetch by (auto simp: executeOp_Iadd executeOp_Isubtract)
  }
qed

theorem failed_arithmetic_loses_operands_witness:
  "Step \<lparr>program = \<lparr>instructions = [IOp OpIadd], jumpTable = [0]\<rparr>,
          ip = 0, stack = [IInt 7, IStr ''x'', IInt 1], stdout = ''out''\<rparr>
     = (Some (ValueNotInt (IStr ''x'')),
        \<lparr>program = \<lparr>instructions = [IOp OpIadd], jumpTable = [0]\<rparr>,
          ip = 1, stack = [IInt 7], stdout = ''out''\<rparr>)
   \<and> length [IInt 7 :: iface] < length [IInt 7, IStr ''x'', IInt 1]"
proof -
  let ?i = "\<lparr>program = \<lparr>instructions = [IOp OpIadd], jumpTable = [0]\<rparr>,
          ip = 0, stack = [IInt 7, IStr ''x'', IInt 1], stdout = ''out''\<rparr>"
  let ?i' = "\<lparr>program = \<lparr>instructions = [IOp OpIadd], jumpTable = [0]\<rparr>,
          ip = 1, stack = [IInt 7], stdout = ''out''\<rparr>"
  have st: "Step ?i = (Some (ValueNotInt (IStr ''x'')), ?i')"
    using failed_arithmetic_loses_operands [of ?i OpIadd _ _ "[IInt 7]" "''x''" 1]
    by simp
  have "length (stack ?i') < length (stack ?i)"
    using failed_arithmetic_loses_operands [of ?i OpIadd "ValueNotInt (IStr ''x'')" ?i'] st
    by simp
  with st show ?thesis by simp
qed

lemma executeOp_underflow:
  assumes "c \<in> {OpPut, OpDup, OpIadd, OpIsubtract, OpSadd}" and "stack i = []"
  shows "executeOp c i = (Some StackIsEmpty, i)"
  using assms
  by (auto simp: executeOp_Put executeOp_Dup executeOp_Iadd executeOp_Isubtract executeOp_Sadd
      pop_empty peek_empty popInt_empty popString_empty)

lemma Step_jumpl_fetch:
  assumes "0 \<le> ip i" and "ip i + 2 < int (length (instructions (program i)))"
    and "instructions (program i) ! nat (ip i) = IOp OpJumpLessThan"
    and "instructions (program i) ! nat (ip i + 1) = IInt v"
    and "instructions (program i) ! nat (ip i + 2) = IInt l"
  shows "Step i =
    (case popInt (i\<lparr>ip := ip i + 3\<rparr>) of
       (Inl err, i3) \<Rightarrow> (Some err, i3)
     | (Inr tp, i3) \<Rightarrow> (if tp <s v then (None, snd (jump l i3)) else (None, i3)))"
proof -
  let ?i1 = "i\<lparr>ip := ip i + 1\<rparr>"
  let ?i2 = "i\<lparr>ip := ip i + 2\<rparr>"
  from assms have "Step i = executeOp OpJumpLessThan ?i1" by (simp add: Step_fetch)
  moreover from assms have "nextInt ?i1 = (Inr v, ?i2)"
    using nextInt_at [of ?i1 v] by simp
  moreover from assms have "nextInt ?i2 = (Inr l, i\<lparr>ip := ip i + 3\<rparr>)"
    using nextInt_at [of ?i2 l] by simp
  ultimately show ?thesis by (simp add: executeOp_JumpLessThan)
qed

text \<open>
  Claim C8. On an empty stack \<^verbatim>\<open>pop\<close> and \<^verbatim>\<open>peek\<close> return the empty-stack error
  and change nothing. A step whose instruction is \<^verbatim>\<open>put\<close>, \<^verbatim>\<open>dup\<close>,
  \<^verbatim>\<open>iadd\<close>, \<^verbatim>\<open>isub\<close> or \<^verbatim>\<open>sadd\<close>, or \<^verbatim>\<open>jumpl\<close> with its two integer
  arguments, fails on an empty stack with that error, having moved the instruction
  pointer only. Whenever a step fails with the empty-stack error the output is what it
  was. The program that is \<^verbatim>\<open>put\<close> alone parses, and \<^verbatim>\<open>Run()\<close> returns the error
  with nothing written.
\<close>

theorem stack_underflow_no_output:
  "(stack i = [] \<longrightarrow> pop i = (Inl StackIsEmpty, i) \<and> peek i = (Inl StackIsEmpty, i))
   \<and> (0 \<le> ip i \<and> ip i < int (length (instructions (program i)))
       \<and> instructions (program i) ! nat (ip i) = IOp c
       \<and> c \<in> {OpPut, OpDup, OpIadd, OpIsubtract, OpSadd} \<and> stack i = []
      \<longrightarrow> Step i = (Some StackIsEmpty, i\<lparr>ip := ip i + 1\<rparr>))
   \<and> (0 \<le> ip i \<and> ip i + 2 < int (length (instructions (program i)))
       \<and> instructions (program i) ! nat (ip i) = IOp OpJumpLessThan
       \<and> instructions (program i) ! nat (ip i + 1) = IInt v
       \<and> instructions (program i) ! nat (ip i + 2) = IInt l \<and> stack i = []
      \<longrightarrow> Step i = (Some StackIsEmpty, i\<lparr>ip := ip i + 3\<rparr>))
   \<and> (Step i = (Some StackIsEmpty, i') \<longrightarrow> stdout i' = stdout i)
   \<and> (case NewProgramFromReader [''put''] of
         Inl err \<Rightarrow> None
       | Inr p \<Rightarrow> Run (NewInterpreter p))
     = Some (Some StackIsEmpty,
         \<lparr>program = \<lparr>instructions = [IOp OpPut], jumpTable = [0]\<rparr>,
          ip = 1, stack = [], stdout = []\<rparr>)"
proof (intro conjI impI)
  assume "stack i = []"
  then show "pop i = (Inl StackIsEmpty, i)" and "peek i = (Inl StackIsEmpty, i)"
    by (simp_all add: pop_empty peek_empty)
next
  assume h: "0 \<le> ip i \<and> ip i < int (length (instructions (program i)))
       \<and> instructions (program i) ! nat (ip i) = IOp c
       \<and> c \<in> {OpPut, OpDup, OpIadd, OpIsubtract, OpSadd} \<and> stack i = []"
  then have "Step i = executeOp c (i\<lparr>ip := ip i + 1\<rparr>)" using Step_fetch [of i c] by blast
  also from h have "\<dots> = (Some StackIsEmpty, i\<lparr>ip := ip i + 1\<rparr>)"
    using executeOp_underflow [of c "i\<lparr>ip := ip i + 1\<rparr>"] by simp
  finally show "Step i = (Some StackIsEmpty, i\<lparr>ip := ip i + 1\<rparr>)" .
next
  assume h: "0 \<le> ip i \<and> ip i + 2 < int (length (instructions (program i)))
       \<and> instructions (program i) ! nat (ip i) = IOp OpJumpLessThan
       \<and> instructions (program i) ! nat (ip i + 1) = IInt v
       \<and> instructions (program i) ! nat (ip i + 2) = IInt l \<and> stack i = []"
  then have "Step i =
    (case popInt (i\<lparr>ip := ip i + 3\<rparr>) of
       (Inl err, i3) \<Rightarrow> (Some err, i3)
     | (Inr tp, i3) \<Rightarrow> (if tp <s v then (None, snd (jump l i3)) else (None, i3)))"
    using Step_jumpl_fetch [of i v l] by blast
  moreover from h have "popInt (i\<lparr>ip := ip i + 3\<rparr>) = (Inl StackIsEmpty, i\<lparr>ip := ip i + 3\<rparr>)"
    by (simp add: popInt_empty)
  ultimately show "Step i = (Some StackIsEmpty, i\<lparr>ip := ip i + 3\<rparr>)" by simp
next
  assume "Step i = (Some StackIsEmpty, i')"
  from Step_frame [OF this] show "stdout i' = stdout i" by simp
next
  have parse: "NewProgramFromReader [''put'']
      = Inr \<lparr>instructions = [IOp OpPut], jumpTable = [0]\<rparr>"
    by code_simp
  have "Run_fuel 2 (NewInterpreter \<lparr>instructions = [IOp OpPut], jumpTable = [0]\<rparr>)
     = Some (Some StackIsEmpty,
         \<lparr>program = \<lparr>instructions = [IOp OpPut], jumpTable = [0]\<rparr>,
          ip = 1, stack = [], stdout = []\<rparr>)"
    by code_simp
  then show "(case NewProgramFromReader [''put''] of
         Inl err \<Rightarrow> None
       | Inr p \<Rightarrow> Run (NewInterpreter p))
     = Some (Some StackIsEmpty,
         \<lparr>program = \<lparr>instructions = [IOp OpPut], jumpTable = [0]\<rparr>,
          ip = 1, stack = [], stdout = []\<rparr>)"
    by (simp add: parse Run_fuel_Run)
qed

theorem stack_underflow_no_output_witness:
  "Step \<lparr>program = \<lparr>instructions = [IOp OpPutln, IOp OpDup], jumpTable = [0, 1]\<rparr>,
          ip = 1, stack = [], stdout = [CHR 0x0A]\<rparr>
     = (Some StackIsEmpty,
        \<lparr>program = \<lparr>instructions = [IOp OpPutln, IOp OpDup], jumpTable = [0, 1]\<rparr>,
          ip = 2, stack = [], stdout = [CHR 0x0A]\<rparr>)
   \<and> Step \<lparr>program = \<lparr>instructions = [IOp OpJumpLessThan, IInt 10, IInt 1], jumpTable = [0]\<rparr>,
          ip = 0, stack = [], stdout = []\<rparr>
     = (Some StackIsEmpty,
        \<lparr>program = \<lparr>instructions = [IOp OpJumpLessThan, IInt 10, IInt 1], jumpTable = [0]\<rparr>,
          ip = 3, stack = [], stdout = []\<rparr>)
   \<and> pop \<lparr>program = \<lparr>instructions = [], jumpTable = []\<rparr>, ip = 0, stack = [], stdout = []\<rparr>
     = (Inl StackIsEmpty,
        \<lparr>program = \<lparr>instructions = [], jumpTable = []\<rparr>, ip = 0, stack = [], stdout = []\<rparr>)"
proof -
  let ?d = "\<lparr>program = \<lparr>instructions = [IOp OpPutln, IOp OpDup], jumpTable = [0, 1]\<rparr>,
          ip = 1, stack = [], stdout = [CHR 0x0A]\<rparr>"
  let ?j = "\<lparr>program = \<lparr>instructions = [IOp OpJumpLessThan, IInt 10, IInt 1], jumpTable = [0]\<rparr>,
          ip = 0, stack = [], stdout = []\<rparr>"
  let ?z = "\<lparr>program = \<lparr>instructions = [], jumpTable = []\<rparr>, ip = 0, stack = [], stdout = []\<rparr>"
  have a: "Step ?d = (Some StackIsEmpty, ?d\<lparr>ip := ip ?d + 1\<rparr>)"
    using stack_underflow_no_output [of ?d OpDup] by simp
  have b: "Step ?j = (Some StackIsEmpty, ?j\<lparr>ip := ip ?j + 3\<rparr>)"
    using stack_underflow_no_output [of ?j _ 10 1] by simp
  have c: "pop ?z = (Inl StackIsEmpty, ?z)"
    using stack_underflow_no_output [of ?z] by simp
  from a b c show ?thesis by simp
qed

section \<open>The counting program\<close>

text \<open>
  Claim C3. The eight-line counting program parses to \<open>counting_program\<close>;
  \<^verbatim>\<open>Run()\<close> on a fresh interpreter returns \<^verbatim>\<open>nil\<close> with the numbers 1 to 10, each
  followed by a newline, written to the output, the pointer at the end and the last
  counter on the stack. The step that ends the loop is the \<^verbatim>\<open>jumpl\<close> that pops 10,
  which is not less than 10, and falls through to the end of the program.
\<close>

theorem counting_program_output:
  "NewProgramFromReader counting_source = Inr counting_program
   \<and> Run (NewInterpreter counting_program)
     = Some (None, \<lparr>program = counting_program, ip = 12, stack = [IInt 10],
                    stdout = counting_output\<rparr>)
   \<and> Step \<lparr>program = counting_program, ip = 9, stack = [IInt 10, IInt 10],
            stdout = counting_output\<rparr>
     = (None, \<lparr>program = counting_program, ip = 12, stack = [IInt 10],
               stdout = counting_output\<rparr>)"
proof (intro conjI)
  show "NewProgramFromReader counting_source = Inr counting_program"
    by code_simp
  have "Run_fuel 72 (NewInterpreter counting_program)
     = Some (None, \<lparr>program = counting_program, ip = 12, stack = [IInt 10],
                    stdout = counting_output\<rparr>)"
    by code_simp
  then show "Run (NewInterpreter counting_program)
     = Some (None, \<lparr>program = counting_program, ip = 12, stack = [IInt 10],
                    stdout = counting_output\<rparr>)"
    by (rule Run_fuel_Run)
  show "Step \<lparr>program = counting_program, ip = 9, stack = [IInt 10, IInt 10],
            stdout = counting_output\<rparr>
     = (None, \<lparr>program = counting_program, ip = 12, stack = [IInt 10],
               stdout = counting_output\<rparr>)"
    by code_simp
qed

section \<open>Jump targets out of range\<close>

text \<open>
  Claim C1. A \<^verbatim>\<open>jump\<close> or \<^verbatim>\<open>jumpl\<close> whose line is below 1 or above the number of lines
  is to make \<^verbatim>\<open>Step()\<close> fail with the invalid-jump error. The code does so at
  \<^verbatim>\<open>jump\<close> and not at a \<^verbatim>\<open>jumpl\<close> that is taken. The source \<^verbatim>\<open>ipush 1 jumpl 10 7\<close>
  parses to a program of two lines whose \<^verbatim>\<open>jumpl\<close> names line 7. The step that executes
  it, with 1 on the stack, returns no error and leaves the stack empty, and \<^verbatim>\<open>Run()\<close>
  returns \<^verbatim>\<open>nil\<close>, although \<^verbatim>\<open>jump\<close>, called by that step with line 7, returns the
  invalid-jump error: \<^verbatim>\<open>executeOp\<close> drops it. With \<^verbatim>\<open>jump 7\<close> in the place of
  \<^verbatim>\<open>jumpl 10 7\<close> the step and the run return the error and the stack keeps its 1.
\<close>

theorem jumpl_out_of_range_error_dropped:
  "NewProgramFromReader [''ipush'', ''1'', ''jumpl'', ''10'', ''7''] = Inr jumpl_bad_program
   \<and> int (length (jumpTable jumpl_bad_program)) < sint (7 :: 64 word)
   \<and> Step \<lparr>program = jumpl_bad_program, ip = 2, stack = [IInt 1], stdout = []\<rparr>
     = (None, \<lparr>program = jumpl_bad_program, ip = 5, stack = [], stdout = []\<rparr>)
   \<and> jump 7 \<lparr>program = jumpl_bad_program, ip = 5, stack = [], stdout = []\<rparr>
     = (Some InvalidJumpIndex,
        \<lparr>program = jumpl_bad_program, ip = 5, stack = [], stdout = []\<rparr>)
   \<and> Run (NewInterpreter jumpl_bad_program)
     = Some (None, \<lparr>program = jumpl_bad_program, ip = 5, stack = [], stdout = []\<rparr>)
   \<and> NewProgramFromReader [''ipush'', ''1'', ''jump'', ''7''] = Inr jump_bad_program
   \<and> Step \<lparr>program = jump_bad_program, ip = 2, stack = [IInt 1], stdout = []\<rparr>
     = (Some InvalidJumpIndex,
        \<lparr>program = jump_bad_program, ip = 4, stack = [IInt 1], stdout = []\<rparr>)
   \<and> Run (NewInterpreter jump_bad_program)
     = Some (Some InvalidJumpIndex,
        \<lparr>program = jump_bad_program, ip = 4, stack = [IInt 1], stdout = []\<rparr>)"
proof (intro conjI)
  show "NewProgramFromReader [''ipush'', ''1'', ''jumpl'', ''10'', ''7''] = Inr jumpl_bad_program"
    by code_simp
  show "int (length (jumpTable jumpl_bad_program)) < sint (7 :: 64 word)"
    by (simp add: jumpl_bad_program_def)
  show "Step \<lparr>program = jumpl_bad_program, ip = 2, stack = [IInt 1], stdout = []\<rparr>
     = (None, \<lparr>program = jumpl_bad_program, ip = 5, stack = [], stdout = []\<rparr>)"
    by code_simp
  show "jump 7 \<lparr>program = jumpl_bad_program, ip = 5, stack = [], stdout = []\<rparr>
     = (Some InvalidJumpIndex,
        \<lparr>program = jumpl_bad_program, ip = 5, stack = [], stdout = []\<rparr>)"
    by code_simp
  have "Run_fuel 4 (NewInterpreter jumpl_bad_program)
     = Some (None, \<lparr>program = jumpl_bad_program, ip = 5, stack = [], stdout = []\<rparr>)"
    by code_simp
  then show "Run (NewInterpreter jumpl_bad_program)
     = Some (None, \<lparr>program = jumpl_bad_program, ip = 5, stack = [], stdout = []\<rparr>)"
    by (rule Run_fuel_Run)
  show "NewProgramFromReader [''ipush'', ''1'', ''jump'', ''7''] = Inr jump_bad_program"
    by code_simp
  show "Step \<lparr>program = jump_bad_program, ip = 2, stack = [IInt 1], stdout = []\<rparr>
     = (Some InvalidJumpIndex,
        \<lparr>program = jump_bad_program, ip = 4, stack = [IInt 1], stdout = []\<rparr>)"
    by code_simp
  have "Run_fuel 4 (NewInterpreter jump_bad_program)
     = Some (Some InvalidJumpIndex,
        \<lparr>program = jump_bad_program, ip = 4, stack = [IInt 1], stdout = []\<rparr>)"
    by code_simp
  then show "Run (NewInterpreter jump_bad_program)
     = Some (Some InvalidJumpIndex,
        \<lparr>program = jump_bad_program, ip = 4, stack = [IInt 1], stdout = []\<rparr>)"
    by (rule Run_fuel_Run)
qed

text \<open>
  The two instructions in general. A step that executes \<^verbatim>\<open>jump L\<close> with \<open>L < 1\<close> or
  \<open>L\<close> greater than the number of lines fails with the invalid-jump error, with the
  stack and the output as they were and the pointer behind the argument (the jump table
  being shorter than \<open>2 ^ 63\<close>, as every Go slice is). A step that executes
  \<^verbatim>\<open>jumpl V L\<close> on a stack whose top is an integer removes that integer whatever \<open>L\<close>
  is. When the integer is not less than \<open>V\<close> the line number is not looked at and the
  step succeeds with the pointer behind the arguments; when it is less than \<open>V\<close> and
  \<open>L\<close> is out of range, the step returns no error either, and the pointer stays behind
  the arguments.
\<close>

lemma jump_and_jumpl_steps:
  "(0 \<le> ip i \<and> ip i + 1 < int (length (instructions (program i)))
      \<and> instructions (program i) ! nat (ip i) = IOp OpJump
      \<and> instructions (program i) ! nat (ip i + 1) = IInt L
      \<and> (sint L < 1 \<or> int (length (jumpTable (program i))) < sint L)
      \<and> int (length (jumpTable (program i))) < 2 ^ 63
     \<longrightarrow> Step i = (Some InvalidJumpIndex, i\<lparr>ip := ip i + 2\<rparr>))
   \<and> (0 \<le> ip i \<and> ip i + 2 < int (length (instructions (program i)))
      \<and> instructions (program i) ! nat (ip i) = IOp OpJumpLessThan
      \<and> instructions (program i) ! nat (ip i + 1) = IInt V
      \<and> instructions (program i) ! nat (ip i + 2) = IInt L
      \<and> stack i = st @ [IInt t]
     \<longrightarrow> stack (snd (Step i)) = st
         \<and> (\<not> t <s V \<longrightarrow> Step i = (None, i\<lparr>ip := ip i + 3, stack := st\<rparr>))
         \<and> (t <s V \<and> (sint L < 1 \<or> int (length (jumpTable (program i))) < sint L)
              \<and> int (length (jumpTable (program i))) < 2 ^ 63
            \<longrightarrow> Step i = (None, i\<lparr>ip := ip i + 3, stack := st\<rparr>)))"
proof (intro conjI impI)
  assume h: "0 \<le> ip i \<and> ip i + 1 < int (length (instructions (program i)))
      \<and> instructions (program i) ! nat (ip i) = IOp OpJump
      \<and> instructions (program i) ! nat (ip i + 1) = IInt L
      \<and> (sint L < 1 \<or> int (length (jumpTable (program i))) < sint L)
      \<and> int (length (jumpTable (program i))) < 2 ^ 63"
  let ?i1 = "i\<lparr>ip := ip i + 1\<rparr>"
  let ?i2 = "i\<lparr>ip := ip i + 2\<rparr>"
  from h have "Step i = executeOp OpJump ?i1" using Step_fetch [of i OpJump] by simp
  moreover from h have "nextInt ?i1 = (Inr L, ?i2)" using nextInt_at [of ?i1 L] by simp
  moreover from h have "jump L ?i2 = (Some InvalidJumpIndex, ?i2)"
    using jump_invalid [of L ?i2] by simp
  ultimately show "Step i = (Some InvalidJumpIndex, i\<lparr>ip := ip i + 2\<rparr>)"
    by (simp add: executeOp_Jump)
next
  assume h: "0 \<le> ip i \<and> ip i + 2 < int (length (instructions (program i)))
      \<and> instructions (program i) ! nat (ip i) = IOp OpJumpLessThan
      \<and> instructions (program i) ! nat (ip i + 1) = IInt V
      \<and> instructions (program i) ! nat (ip i + 2) = IInt L
      \<and> stack i = st @ [IInt t]"
  let ?i3 = "i\<lparr>ip := ip i + 3\<rparr>"
  from h have step: "Step i =
    (case popInt ?i3 of
       (Inl err, i3) \<Rightarrow> (Some err, i3)
     | (Inr tp, i3) \<Rightarrow> (if tp <s V then (None, snd (jump L i3)) else (None, i3)))"
    using Step_jumpl_fetch [of i V L] by blast
  from h have pop: "popInt ?i3 = (Inr t, ?i3\<lparr>stack := st\<rparr>)"
    using popInt_snoc [of ?i3 st "IInt t"] by (simp add: asInt_def)
  have "stack (snd (jump L (?i3\<lparr>stack := st\<rparr>))) = st"
    using jump_frame [of L "?i3\<lparr>stack := st\<rparr>"] by (cases "jump L (?i3\<lparr>stack := st\<rparr>)") simp
  with step pop show "stack (snd (Step i)) = st" by simp
  {
    assume "\<not> t <s V"
    with step pop show "Step i = (None, i\<lparr>ip := ip i + 3, stack := st\<rparr>)" by simp
  }
  {
    assume t: "t <s V \<and> (sint L < 1 \<or> int (length (jumpTable (program i))) < sint L)
              \<and> int (length (jumpTable (program i))) < 2 ^ 63"
    then have "jump L (?i3\<lparr>stack := st\<rparr>) = (Some InvalidJumpIndex, ?i3\<lparr>stack := st\<rparr>)"
      using jump_invalid [of L "?i3\<lparr>stack := st\<rparr>"] by simp
    with step pop t show "Step i = (None, i\<lparr>ip := ip i + 3, stack := st\<rparr>)" by simp
  }
qed

lemma jump_and_jumpl_steps_instance:
  "Step \<lparr>program = \<lparr>instructions = [IOp OpJump, IInt 3], jumpTable = [0]\<rparr>,
          ip = 0, stack = [IStr ''keep''], stdout = []\<rparr>
     = (Some InvalidJumpIndex,
        \<lparr>program = \<lparr>instructions = [IOp OpJump, IInt 3], jumpTable = [0]\<rparr>,
          ip = 2, stack = [IStr ''keep''], stdout = []\<rparr>)
   \<and> Step \<lparr>program = jumpl_bad_program, ip = 2, stack = [IInt 12], stdout = []\<rparr>
     = (None, \<lparr>program = jumpl_bad_program, ip = 5, stack = [], stdout = []\<rparr>)"
proof -
  let ?a = "\<lparr>program = \<lparr>instructions = [IOp OpJump, IInt 3], jumpTable = [0]\<rparr>,
          ip = 0, stack = [IStr ''keep''], stdout = []\<rparr>"
  let ?b = "\<lparr>program = jumpl_bad_program, ip = 2, stack = [IInt 12], stdout = []\<rparr>"
  have a: "Step ?a = (Some InvalidJumpIndex, ?a\<lparr>ip := ip ?a + 2\<rparr>)"
    using jump_and_jumpl_steps [where i = ?a and L = 3] by simp
  have "\<not> (12 :: 64 word) <s 10" by (simp add: word_sless_alt)
  then have b: "Step ?b = (None, ?b\<lparr>ip := ip ?b + 3, stack := []\<rparr>)"
    using jump_and_jumpl_steps [where i = ?b and V = 10 and L = 7 and st = "[]" and t = 12]
    by (simp add: jumpl_bad_program_def)
  from a b show ?thesis by simp
qed

section \<open>The jump table\<close>

lemma getArgument_kind:
  "getArgument sc a = (Inr v, sc') \<Longrightarrow> \<not> is_opcode_cell v"
  by (auto simp: getArgument_def is_opcode_cell_def split: if_splits prod.splits sum.splits)

lemma parseOp_args_cells:
  "parseOp_args k as sc arr = (None, sc', arr') \<Longrightarrow>
     length arr' = length arr
     \<and> (as \<noteq> [] \<longrightarrow> k + length as < length arr)
     \<and> (\<forall>j \<le> k. arr' ! j = arr ! j)
     \<and> (\<forall>j. k < j \<and> j \<le> k + length as \<longrightarrow> \<not> is_opcode_cell (arr' ! j))"
proof (induction as arbitrary: k sc arr)
  case Nil
  then show ?case by auto
next
  case (Cons a as)
  obtain r sc1 where ga: "getArgument sc a = (r, sc1)" by (cases "getArgument sc a")
  with Cons.prems obtain v where r: "r = Inr v" by (cases r) auto
  with ga have nov: "\<not> is_opcode_cell v" by (simp add: getArgument_kind)
  from Cons.prems ga r have bound: "1 + k < length arr"
    by (auto split: if_splits)
  with Cons.prems ga r
  have rec: "parseOp_args (k + 1) as sc1 (arr[1 + k := v]) = (None, sc', arr')" by simp
  from Cons.IH [OF rec]
  have len: "length arr' = length arr"
    and fit: "as \<noteq> [] \<longrightarrow> k + 1 + length as < length arr"
    and same: "\<forall>j \<le> k + 1. arr' ! j = (arr[1 + k := v]) ! j"
    and args: "\<forall>j. k + 1 < j \<and> j \<le> k + 1 + length as \<longrightarrow> \<not> is_opcode_cell (arr' ! j)"
    by simp_all
  have "k + length (a # as) < length arr"
    using fit bound by (cases as) simp_all
  moreover have "\<forall>j \<le> k. arr' ! j = arr ! j"
    using same by simp
  moreover have "\<not> is_opcode_cell (arr' ! j)" if "k < j" and "j \<le> k + length (a # as)" for j
  proof (cases "j = k + 1")
    case True
    with same bound have "arr' ! j = v" by simp
    with nov show ?thesis by simp
  next
    case False
    with that args show ?thesis by simp
  qed
  ultimately show ?case using len by simp
qed

lemma parseOp_line:
  assumes "parseOp token sc cur = (Inr n, sc', cur')" and "cur \<noteq> []"
  shows "0 < n \<and> n \<le> length cur' \<and> length cur' = length cur \<and> line_cells (take n cur')"
proof -
  from assms obtain sg where sg: "instructionSignatures token = Some sg"
    by (cases "instructionSignatures token") (auto simp: parseOp_def)
  let ?arr = "cur[0 := IOp (op sg)]"
  obtain r sc1 arr1 where pa: "parseOp_args 0 (args sg) sc ?arr = (r, sc1, arr1)"
    by (cases "parseOp_args 0 (args sg) sc ?arr") auto
  with assms sg have r: "r = None" and n: "n = 1 + length (args sg)" and c: "cur' = arr1"
    by (auto simp: parseOp_def split: option.splits)
  from parseOp_args_cells [of 0 "args sg" sc ?arr sc1 arr1] pa r
  have len: "length arr1 = length cur"
    and fit: "args sg \<noteq> [] \<longrightarrow> length (args sg) < length cur"
    and same: "arr1 ! 0 = ?arr ! 0"
    and cells: "\<forall>j. 0 < j \<and> j \<le> length (args sg) \<longrightarrow> \<not> is_opcode_cell (arr1 ! j)"
    by simp_all
  from assms(2) have pos: "0 < length cur" by simp
  have nle: "n \<le> length arr1"
    using n len fit pos by (cases "args sg") (simp_all add: Suc_le_eq)
  from same pos have hd: "arr1 ! 0 = IOp (op sg)" by simp
  from nle n obtain x xs where tk: "take n arr1 = x # xs"
    by (cases "take n arr1") auto
  have x: "x = arr1 ! 0"
    using tk nle n by (metis nth_take nth_Cons_0 zero_less_Suc plus_1_eq_Suc)
  have xs: "\<not> is_opcode_cell y" if "y \<in> set xs" for y
  proof -
    from that obtain j where j: "j < length xs" and y: "y = xs ! j"
      by (auto simp: in_set_conv_nth)
    from tk have lx: "length xs = n - 1" using nle
      by (metis length_Cons length_take min.absorb2 diff_Suc_1)
    from y have "y = (take n arr1) ! (Suc j)" using tk by simp
    also have "\<dots> = arr1 ! (Suc j)" using j lx by simp
    finally have "y = arr1 ! Suc j" .
    moreover have "Suc j \<le> length (args sg)" using j lx n by simp
    ultimately show ?thesis using cells by simp
  qed
  have "line_cells (take n arr1)"
    using tk x hd xs by (simp add: line_cells_def is_opcode_cell_def list_all_iff)
  with n nle len c show ?thesis by simp
qed

lemma parseProgram_loop_lines:
  "parseProgram_loop sc cur instrs jt = Inr (instrs', jt') \<Longrightarrow> cur \<noteq> [] \<Longrightarrow>
   \<exists>ls. instrs' = instrs @ concat ls \<and> list_all line_cells ls
        \<and> jt' = jt @ line_offsets (length instrs) ls"
proof (induction sc cur instrs jt rule: parseProgram_loop.induct)
  case (1 cur instrs jt)
  then have "instrs' = instrs @ concat []" and "jt' = jt @ line_offsets (length instrs) []"
    by simp_all
  then show ?case by (intro exI [of _ "[]"]) simp
next
  case (2 token sc cur instrs jt)
  obtain r sc1 cur1 where po: "parseOp token sc cur = (r, sc1, cur1)"
    by (cases "parseOp token sc cur") auto
  with "2.prems" obtain n where r: "r = Inr n" by (cases r) auto
  from parseOp_line [of token sc cur n sc1 cur1] po r "2.prems"
  have n: "0 < n" and len: "length cur1 = length cur" and line: "line_cells (take n cur1)"
    and tk: "n \<le> length cur1"
    by simp_all
  from len "2.prems" have ne: "cur1 \<noteq> []" by auto
  from "2.prems" po r n
  have rec: "parseProgram_loop sc1 cur1 (instrs @ take n cur1) (jt @ [int (length instrs)])
      = Inr (instrs', jt')" by simp
  from "2.IH"(1) [OF po [symmetric] r refl n rec ne]
  obtain ls where a: "instrs' = (instrs @ take n cur1) @ concat ls"
    and b: "list_all line_cells ls"
    and c: "jt' = (jt @ [int (length instrs)]) @ line_offsets (length (instrs @ take n cur1)) ls"
    by blast
  let ?ls = "take n cur1 # ls"
  have "instrs' = instrs @ concat ?ls" using a by simp
  moreover have "list_all line_cells ?ls" using b line by simp
  moreover have "jt' = jt @ line_offsets (length instrs) ?ls" using c by simp
  ultimately show ?case by blast
qed


lemma line_cells_nth:
  assumes "line_cells l"
  shows "l \<noteq> []" and "is_opcode_cell (l ! 0)"
    and "\<And>p. 0 < p \<Longrightarrow> p < length l \<Longrightarrow> \<not> is_opcode_cell (l ! p)"
proof -
  from assms obtain c as where l: "l = c # as" and c: "is_opcode_cell c"
    and as: "list_all (\<lambda>a. \<not> is_opcode_cell a) as"
    by (cases l) (auto simp: line_cells_def)
  show "l \<noteq> []" and "is_opcode_cell (l ! 0)" using l c by simp_all
  fix p assume "0 < p" "p < length l"
  then obtain q where "p = Suc q" and "q < length as" using l by (cases p) auto
  with as l show "\<not> is_opcode_cell (l ! p)" by (simp add: list_all_length)
qed

lemma length_line_offsets: "length (line_offsets n ls) = length ls"
  by (induction ls arbitrary: n) simp_all

lemma line_offsets_nth:
  "k < length ls \<Longrightarrow> line_offsets n ls ! k = int (n + length (concat (take k ls)))"
proof (induction ls arbitrary: n k)
  case Nil
  then show ?case by simp
next
  case (Cons l ls)
  show ?case
  proof (cases k)
    case 0
    then show ?thesis by simp
  next
    case (Suc j)
    with Cons.prems have "j < length ls" by simp
    from Cons.IH [OF this, of "n + length l"] Suc show ?thesis by (simp add: add.assoc)
  qed
qed

lemma line_offsets_bounds:
  "list_all line_cells ls \<Longrightarrow> x \<in> set (line_offsets n ls) \<Longrightarrow>
     int n \<le> x \<and> x < int (n + length (concat ls))"
proof (induction ls arbitrary: n)
  case Nil
  then show ?case by simp
next
  case (Cons l ls)
  from Cons.prems have "l \<noteq> []" and rest: "list_all line_cells ls"
    by (simp_all add: line_cells_nth(1))
  then have l: "1 \<le> int (length l)" by (cases l) simp_all
  from Cons.prems consider "x = int n" | "x \<in> set (line_offsets (n + length l) ls)" by auto
  then show ?case
  proof cases
    case 1
    with l show ?thesis by simp
  next
    case 2
    from Cons.IH [OF rest this] show ?thesis by simp
  qed
qed

lemma line_offsets_sorted:
  "list_all line_cells ls \<Longrightarrow> sorted_wrt (<) (line_offsets n ls)"
proof (induction ls arbitrary: n)
  case Nil
  then show ?case by simp
next
  case (Cons l ls)
  from Cons.prems have "l \<noteq> []" and rest: "list_all line_cells ls"
    by (simp_all add: line_cells_nth(1))
  then have l: "1 \<le> int (length l)" by (cases l) simp_all
  have "int n < x" if "x \<in> set (line_offsets (n + length l) ls)" for x
    using line_offsets_bounds [OF rest that] l by simp
  with Cons.IH [OF rest] show ?case by simp
qed

lemma opcode_positions:
  "list_all line_cells ls \<Longrightarrow> p < length (concat ls) \<Longrightarrow>
     is_opcode_cell (concat ls ! p) = (int (n + p) \<in> set (line_offsets n ls))"
proof (induction ls arbitrary: n p)
  case Nil
  then show ?case by simp
next
  case (Cons l ls)
  from Cons.prems have line: "line_cells l" and rest: "list_all line_cells ls" by simp_all
  from line have l: "l \<noteq> []" by (rule line_cells_nth(1))
  have later: "int (n + length l) \<le> x" if "x \<in> set (line_offsets (n + length l) ls)" for x
    using line_offsets_bounds [OF rest that] by simp
  show ?case
  proof (cases "p < length l")
    case True
    then have cell: "concat (l # ls) ! p = l ! p" by (simp add: nth_append)
    have notlater: "int (n + p) \<notin> set (line_offsets (n + length l) ls)"
      using later [of "int (n + p)"] True by auto
    show ?thesis
    proof (cases "p = 0")
      case True
      with cell line show ?thesis by (simp add: line_cells_nth(2))
    next
      case False
      with True line have "\<not> is_opcode_cell (l ! p)" by (simp add: line_cells_nth(3))
      with cell notlater False show ?thesis by simp
    qed
  next
    case False
    then have cell: "concat (l # ls) ! p = concat ls ! (p - length l)"
      by (simp add: nth_append)
    from False Cons.prems have q: "p - length l < length (concat ls)" by simp
    from False l have "int (n + p) \<noteq> int n" by (cases l) auto
    moreover from False have "n + length l + (p - length l) = n + p" by simp
    ultimately show ?thesis
      using Cons.IH [OF rest q, of "n + length l"] cell by simp
  qed
qed

text \<open>
  Claim C6. When the parser succeeds, the instruction sequence is a concatenation of
  lines (an opcode cell followed by its argument cells), the jump table has one entry
  for each line, and entry \<open>k\<close> is the length of the lines before line \<open>k\<close>, which
  is the length the sequence had when that line was appended. The entries are strictly
  increasing, each is an index into the sequence at which an opcode cell stands, and
  the opcode cells are exactly the cells the entries point at: no entry points at an
  argument cell.
\<close>

theorem jump_table_invariant:
  "parseProgram sc = Inr (instrs, jt) \<longrightarrow>
     (\<exists>ls. instrs = concat ls \<and> list_all line_cells ls \<and> length jt = length ls
        \<and> (\<forall>k < length ls. jt ! k = int (length (concat (take k ls)))))
     \<and> sorted_wrt (<) jt
     \<and> (\<forall>k < length jt. 0 \<le> jt ! k \<and> jt ! k < int (length instrs)
           \<and> is_opcode_cell (instrs ! nat (jt ! k)))
     \<and> (\<forall>p < length instrs. is_opcode_cell (instrs ! p) = (int p \<in> set jt))"
proof
  assume "parseProgram sc = Inr (instrs, jt)"
  then have "parseProgram_loop sc (replicate 16 INil) [] [] = Inr (instrs, jt)"
    by (simp add: parseProgram_def)
  from parseProgram_loop_lines [OF this]
  obtain ls where i: "instrs = concat ls" and lines: "list_all line_cells ls"
    and j: "jt = line_offsets 0 ls" by auto
  have nth: "\<forall>k < length ls. jt ! k = int (length (concat (take k ls)))"
    using line_offsets_nth [of _ ls 0] j by simp
  have pos: "\<forall>p < length instrs. is_opcode_cell (instrs ! p) = (int p \<in> set jt)"
    using opcode_positions [OF lines, of _ 0] i j by simp
  have entries: "0 \<le> jt ! k \<and> jt ! k < int (length instrs) \<and> is_opcode_cell (instrs ! nat (jt ! k))"
    if "k < length jt" for k
  proof -
    from that have mem: "jt ! k \<in> set jt" by simp
    with line_offsets_bounds [OF lines, of "jt ! k" 0] i j
    have b: "0 \<le> jt ! k" "jt ! k < int (length instrs)" by simp_all
    then have "nat (jt ! k) < length instrs" by simp
    with pos have "is_opcode_cell (instrs ! nat (jt ! k)) = (int (nat (jt ! k)) \<in> set jt)"
      by blast
    with b mem show ?thesis by simp
  qed
  show "(\<exists>ls. instrs = concat ls \<and> list_all line_cells ls \<and> length jt = length ls
        \<and> (\<forall>k < length ls. jt ! k = int (length (concat (take k ls)))))
     \<and> sorted_wrt (<) jt
     \<and> (\<forall>k < length jt. 0 \<le> jt ! k \<and> jt ! k < int (length instrs)
           \<and> is_opcode_cell (instrs ! nat (jt ! k)))
     \<and> (\<forall>p < length instrs. is_opcode_cell (instrs ! p) = (int p \<in> set jt))"
  proof (intro conjI)
    show "\<exists>ls. instrs = concat ls \<and> list_all line_cells ls \<and> length jt = length ls
        \<and> (\<forall>k < length ls. jt ! k = int (length (concat (take k ls))))"
      using i lines j nth by (intro exI [of _ ls]) (simp add: length_line_offsets)
    show "sorted_wrt (<) jt" using line_offsets_sorted [OF lines, of 0] j by simp
    show "\<forall>k < length jt. 0 \<le> jt ! k \<and> jt ! k < int (length instrs)
           \<and> is_opcode_cell (instrs ! nat (jt ! k))"
      using entries by blast
    show "\<forall>p < length instrs. is_opcode_cell (instrs ! p) = (int p \<in> set jt)" by (rule pos)
  qed
qed

theorem jump_table_invariant_witness:
  "parseProgram counting_source
     = Inr (instructions counting_program, jumpTable counting_program)
   \<and> sorted_wrt (<) (jumpTable counting_program)
   \<and> jumpTable counting_program ! 7 < int (length (instructions counting_program))
   \<and> is_opcode_cell (instructions counting_program ! nat (jumpTable counting_program ! 7))
   \<and> is_opcode_cell (instructions counting_program ! 9)
       = (int 9 \<in> set (jumpTable counting_program))
   \<and> is_opcode_cell (instructions counting_program ! 10)
       = (int 10 \<in> set (jumpTable counting_program))"
proof -
  have parse: "parseProgram counting_source
     = Inr (instructions counting_program, jumpTable counting_program)"
    by code_simp
  have k: "7 < length (jumpTable counting_program)"
    and p: "9 < length (instructions counting_program)"
    and q: "10 < length (instructions counting_program)"
    by (simp_all add: counting_program_def)
  from jump_table_invariant
    [of counting_source "instructions counting_program" "jumpTable counting_program"] parse
  have s: "sorted_wrt (<) (jumpTable counting_program)"
    and e: "\<forall>k < length (jumpTable counting_program).
         0 \<le> jumpTable counting_program ! k
         \<and> jumpTable counting_program ! k < int (length (instructions counting_program))
         \<and> is_opcode_cell (instructions counting_program ! nat (jumpTable counting_program ! k))"
    and c: "\<forall>p < length (instructions counting_program).
         is_opcode_cell (instructions counting_program ! p)
           = (int p \<in> set (jumpTable counting_program))"
    by blast+
  from e k have e7: "jumpTable counting_program ! 7 < int (length (instructions counting_program))
      \<and> is_opcode_cell (instructions counting_program ! nat (jumpTable counting_program ! 7))"
    by blast
  from c p have c9: "is_opcode_cell (instructions counting_program ! 9)
       = (int 9 \<in> set (jumpTable counting_program))" by blast
  from c q have c10: "is_opcode_cell (instructions counting_program ! 10)
       = (int 10 \<in> set (jumpTable counting_program))" by blast
  from parse s e7 c9 c10 show ?thesis by blast
qed

section \<open>Parse errors\<close>

lemma getArgument_append:
  "getArgument sc a = (Inr v, sc') \<Longrightarrow> getArgument (sc @ rest) a = (Inr v, sc' @ rest)"
  by (cases sc)
    (auto simp: getArgument_def nextInt_scanner_def nextString_scanner_def
      split: if_splits sum.splits)

lemma parseOp_args_append:
  "parseOp_args k as sc arr = (None, sc', arr') \<Longrightarrow>
   parseOp_args k as (sc @ rest) arr = (None, sc' @ rest, arr')"
proof (induction as arbitrary: k sc arr)
  case Nil
  then show ?case by simp
next
  case (Cons a as)
  obtain r sc1 where ga: "getArgument sc a = (r, sc1)" by (cases "getArgument sc a")
  with Cons.prems obtain v where r: "r = Inr v" by (cases r) auto
  from ga r have ga': "getArgument (sc @ rest) a = (Inr v, sc1 @ rest)"
    by (simp add: getArgument_append)
  from Cons.prems ga r have bound: "\<not> length arr \<le> 1 + k" by (auto split: if_splits)
  with Cons.prems ga r
  have "parseOp_args (k + 1) as sc1 (arr[1 + k := v]) = (None, sc', arr')" by simp
  from Cons.IH [OF this] ga' bound show ?case by simp
qed

lemma parseOp_append:
  assumes "parseOp token sc cur = (Inr n, sc', cur')"
  shows "parseOp token (sc @ rest) cur = (Inr n, sc' @ rest, cur')"
proof -
  from assms obtain sg where sg: "instructionSignatures token = Some sg"
    by (cases "instructionSignatures token") (auto simp: parseOp_def)
  let ?arr = "cur[0 := IOp (op sg)]"
  obtain r sc1 arr1 where pa: "parseOp_args 0 (args sg) sc ?arr = (r, sc1, arr1)"
    by (cases "parseOp_args 0 (args sg) sc ?arr") auto
  with assms sg have r: "r = None" and eqs: "n = 1 + length (args sg)" "sc' = sc1" "cur' = arr1"
    by (auto simp: parseOp_def split: option.splits)
  from parseOp_args_append [of 0 "args sg" sc ?arr sc1 arr1 rest] pa r
  have "parseOp_args 0 (args sg) (sc @ rest) ?arr = (None, sc1 @ rest, arr1)" by simp
  with sg eqs show ?thesis by (simp add: parseOp_def)
qed

lemma parseProgram_loop_append:
  "parseProgram_loop pre cur instrs jt = Inr (instrs', jt') \<Longrightarrow> cur \<noteq> [] \<Longrightarrow>
   \<exists>cur'. length cur' = length cur
      \<and> (\<forall>rest. parseProgram_loop (pre @ rest) cur instrs jt
                  = parseProgram_loop rest cur' instrs' jt')"
proof (induction pre cur instrs jt rule: parseProgram_loop.induct)
  case (1 cur instrs jt)
  then show ?case by (intro exI [of _ cur]) simp
next
  case (2 token sc cur instrs jt)
  obtain r sc1 cur1 where po: "parseOp token sc cur = (r, sc1, cur1)"
    by (cases "parseOp token sc cur") auto
  with "2.prems" obtain n where r: "r = Inr n" by (cases r) auto
  from parseOp_line [of token sc cur n sc1 cur1] po r "2.prems"
  have n: "0 < n" and len: "length cur1 = length cur" by simp_all
  from len "2.prems" have ne: "cur1 \<noteq> []" by auto
  from "2.prems" po r n
  have rec: "parseProgram_loop sc1 cur1 (instrs @ take n cur1) (jt @ [int (length instrs)])
      = Inr (instrs', jt')" by simp
  from "2.IH"(1) [OF po [symmetric] r refl n rec ne]
  obtain cur' where l: "length cur' = length cur1"
    and a: "\<forall>rest. parseProgram_loop (sc1 @ rest) cur1 (instrs @ take n cur1)
               (jt @ [int (length instrs)]) = parseProgram_loop rest cur' instrs' jt'"
    by blast
  have "parseProgram_loop ((token # sc) @ rest) cur instrs jt
      = parseProgram_loop rest cur' instrs' jt'" for rest
  proof -
    from po r have "parseOp token (sc @ rest) cur = (Inr n, sc1 @ rest, cur1)"
      by (simp add: parseOp_append)
    with n a show ?thesis by simp
  qed
  with l len show ?case by (intro exI [of _ cur']) simp
qed

lemma signature_args:
  "instructionSignatures token = Some sg \<Longrightarrow>
     length (args sg) \<le> 2 \<and> set (args sg) \<subseteq> {argInt, argString}"
  by (auto simp: instructionSignatures_def Instruction_defs split: if_splits)

lemma parseOp_args_short:
  "\<lbrakk>args_accepted kinds ts; length ts < length kinds; set kinds \<subseteq> {argInt, argString};
    k + length kinds < length arr\<rbrakk>
   \<Longrightarrow> fst (parseOp_args k kinds ts arr) = Some EndOfProgram"
proof (induction kinds arbitrary: ts k arr)
  case Nil
  then show ?case by simp
next
  case (Cons a kinds)
  show ?case
  proof (cases ts)
    case Nil
    with Cons.prems show ?thesis
      by (auto simp: getArgument_def nextInt_scanner_def nextString_scanner_def)
  next
    case (Cons t ts')
    with Cons.prems obtain v where ga: "getArgument ts a = (Inr v, ts')"
      by (auto simp: getArgument_def nextInt_scanner_def nextString_scanner_def argInt_def
          argString_def split: sum.splits)
    from Cons.prems Cons have "fst (parseOp_args (k + 1) kinds ts' (arr[1 + k := v])) = Some EndOfProgram"
      using Cons.IH [of ts' "k + 1" "arr[1 + k := v]"] by simp
    with ga Cons.prems show ?thesis by simp
  qed
qed

lemma parseOp_args_bad_int:
  "\<lbrakk>args_accepted kinds ts; length ts < length kinds; kinds ! length ts = argInt;
    Atoi t = Inl e; set kinds \<subseteq> {argInt, argString}; k + length kinds < length arr\<rbrakk>
   \<Longrightarrow> fst (parseOp_args k kinds (ts @ t # rest) arr) = Some e"
proof (induction kinds arbitrary: ts k arr)
  case Nil
  then show ?case by simp
next
  case (Cons a kinds)
  show ?case
  proof (cases ts)
    case Nil
    with Cons.prems show ?thesis
      by (auto simp: getArgument_def nextInt_scanner_def)
  next
    case (Cons u ts')
    with Cons.prems obtain v where ga: "getArgument (ts @ t # rest) a = (Inr v, ts' @ t # rest)"
      by (auto simp: getArgument_def nextInt_scanner_def nextString_scanner_def argInt_def
          argString_def split: sum.splits)
    from Cons.prems Cons
    have "fst (parseOp_args (k + 1) kinds (ts' @ t # rest) (arr[1 + k := v])) = Some e"
      using Cons.IH [of ts' "k + 1" "arr[1 + k := v]"] by simp
    with ga Cons.prems show ?thesis by simp
  qed
qed


lemma parseOp_unknown:
  "instructionSignatures token = None \<Longrightarrow>
     parseOp token sc cur = (Inl (InvalidInstruction token), sc, cur)"
  by (simp add: parseOp_def)

lemma parseOp_short:
  assumes "instructionSignatures token = Some sg" and "args_accepted (args sg) ts"
    and "length ts < length (args sg)" and "length cur = 16"
  shows "fst (parseOp token ts cur) = Inl EndOfProgram"
proof -
  from signature_args [OF assms(1)]
  have k: "set (args sg) \<subseteq> {argInt, argString}" and "0 + length (args sg) < length cur"
    using assms(4) by simp_all
  then have "fst (parseOp_args 0 (args sg) ts (cur[0 := IOp (op sg)])) = Some EndOfProgram"
    using parseOp_args_short [of "args sg" ts 0 "cur[0 := IOp (op sg)]"] assms(2,3) by simp
  with assms(1) show ?thesis
    by (cases "parseOp_args 0 (args sg) ts (cur[0 := IOp (op sg)])") (simp add: parseOp_def)
qed

lemma parseOp_bad_int:
  assumes "instructionSignatures token = Some sg" and "args_accepted (args sg) ts"
    and "length ts < length (args sg)" and "args sg ! length ts = argInt"
    and "Atoi t = Inl e" and "length cur = 16"
  shows "fst (parseOp token (ts @ t # rest) cur) = Inl e"
proof -
  from signature_args [OF assms(1)]
  have k: "set (args sg) \<subseteq> {argInt, argString}" and "0 + length (args sg) < length cur"
    using assms(6) by simp_all
  then have "fst (parseOp_args 0 (args sg) (ts @ t # rest) (cur[0 := IOp (op sg)])) = Some e"
    using parseOp_args_bad_int [of "args sg" ts t e 0 "cur[0 := IOp (op sg)]" rest]
      assms(2,3,4,5) by simp
  with assms(1) show ?thesis
    by (cases "parseOp_args 0 (args sg) (ts @ t # rest) (cur[0 := IOp (op sg)])")
      (simp add: parseOp_def)
qed

lemma parse_error_after_prefix:
  assumes "parseProgram pre = Inr r"
    and "\<And>cur. length cur = 16 \<Longrightarrow> fst (parseOp token sc cur) = Inl e"
  shows "parseProgram (pre @ token # sc) = Inl (Wrap ''unable to parse op code'' e)"
proof -
  obtain instrs jt where r: "r = (instrs, jt)" by (cases r)
  with assms(1) have "parseProgram_loop pre (replicate 16 INil) [] [] = Inr (instrs, jt)"
    by (simp add: parseProgram_def)
  from parseProgram_loop_append [OF this]
  obtain cur' where l: "length cur' = 16"
    and a: "\<forall>rest. parseProgram_loop (pre @ rest) (replicate 16 INil) [] []
              = parseProgram_loop rest cur' instrs jt"
    by auto
  from assms(2) [OF l] obtain sc' cur'' where "parseOp token sc cur' = (Inl e, sc', cur'')"
    by (cases "parseOp token sc cur'") auto
  then have "parseProgram_loop (token # sc) cur' instrs jt
      = Inl (Wrap ''unable to parse op code'' e)" by simp
  with a show ?thesis by (simp add: parseProgram_def)
qed

lemma digit_val_range: "is_digit c \<Longrightarrow> 0 \<le> digit_val c \<and> digit_val c \<le> 9"
  by (auto simp: is_digit_def digit_val_def)

lemma ParseUint_loop_Inr:
  "ParseUint_loop s0 n cs = Inr m \<Longrightarrow>
     list_all is_digit cs \<and> m = foldl (\<lambda>n c. n * 10 + digit_val c) n cs"
  by (induction cs arbitrary: n) (auto split: if_splits)

lemma foldl_digits_nonneg:
  "list_all is_digit cs \<Longrightarrow> 0 \<le> n \<Longrightarrow> 0 \<le> foldl (\<lambda>n c. n * 10 + digit_val c) n cs"
proof (induction cs arbitrary: n)
  case Nil
  then show ?case by simp
next
  case (Cons c cs)
  then have "0 \<le> n * 10 + digit_val c" using digit_val_range [of c] by simp
  with Cons show ?case by simp
qed

lemma sint_word_of_int_64:
  "- (2 ^ 63) \<le> x \<Longrightarrow> x < 2 ^ 63 \<Longrightarrow> sint (word_of_int x :: 64 word) = x"
  by (simp add: sint_sbintrunc' signed_take_bit_int_eq_self)

lemma Atoi_decimal:
  assumes "Atoi s = Inr w"
  shows "\<exists>ds. ds \<noteq> [] \<and> list_all is_digit ds
     \<and> ((s = ds \<or> s = CHR ''+'' # ds) \<and> sint w = decimal ds
        \<or> s = CHR ''-'' # ds \<and> sint w = - decimal ds)"
proof -
  from assms have ne: "s \<noteq> []" by (auto simp: Atoi_def)
  let ?s1 = "if hd s = CHR ''+'' \<or> hd s = CHR ''-'' then tl s else s"
  from assms ne have s1: "?s1 \<noteq> []" by (auto simp: Atoi_def Let_def split: if_splits)
  from assms ne s1 obtain un where pu: "ParseUint_loop s 0 ?s1 = Inr un"
    by (cases "ParseUint_loop s 0 ?s1") (auto simp: Atoi_def Let_def split: if_splits)
  from ParseUint_loop_Inr [OF pu]
  have dig: "list_all is_digit ?s1" and un: "un = decimal ?s1" by (simp_all add: decimal_def)
  from foldl_digits_nonneg [OF dig, of 0] un have nonneg: "0 \<le> un" by (simp add: decimal_def)
  show ?thesis
  proof (cases "hd s = CHR ''-''")
    case True
    with assms ne s1 pu have le: "un \<le> 2 ^ 63" and w: "w = - word_of_int un"
      by (auto simp: Atoi_def Let_def split: if_splits)
    from w have "w = word_of_int (- un)" by simp
    with le nonneg have "sint w = - un" using sint_word_of_int_64 [of "- un"] by simp
    moreover from True ne have "s = CHR ''-'' # tl s" by (cases s) auto
    ultimately show ?thesis using True s1 dig un by (intro exI [of _ "tl s"]) auto
  next
    case False
    with assms ne s1 pu have lt: "un < 2 ^ 63" and w: "w = word_of_int un"
      by (auto simp: Atoi_def Let_def split: if_splits)
    with nonneg have sw: "sint w = un" using sint_word_of_int_64 [of un] by simp
    show ?thesis
    proof (cases "hd s = CHR ''+''")
      case True
      with ne have "s = CHR ''+'' # tl s" by (cases s) auto
      with True s1 dig un sw show ?thesis by (intro exI [of _ "tl s"]) auto
    next
      case plus: False
      with False ne dig un sw show ?thesis by (intro exI [of _ s]) auto
    qed
  qed
qed

text \<open>
  Claim C7. After any tokens that parse as whole lines: a mnemonic that is not in the
  instruction table makes the parser fail with the invalid-instruction error that names
  the token; a mnemonic followed by fewer tokens than it has arguments, each of them
  acceptable, makes it fail with the end-of-program error; and a token that
  \<^verbatim>\<open>strconv.Atoi\<close> rejects in the place of an integer argument makes it fail with
  the error of \<^verbatim>\<open>strconv.Atoi\<close>. (\<^verbatim>\<open>parseProgram\<close> wraps each of them in its message.)
  The scanner functions return the end-of-program error when no token is left; an
  integer argument is the result of \<^verbatim>\<open>strconv.Atoi\<close> on the token, which accepts an
  optional sign followed by decimal digits and yields the number they denote; a text
  argument is the token itself.
\<close>

theorem parser_errors:
  "(parseProgram pre = Inr r \<and> instructionSignatures token = None
     \<longrightarrow> parseProgram (pre @ token # rest)
          = Inl (Wrap ''unable to parse op code'' (InvalidInstruction token)))
   \<and> (parseProgram pre = Inr r \<and> instructionSignatures token = Some sg
       \<and> args_accepted (args sg) ts \<and> length ts < length (args sg)
     \<longrightarrow> parseProgram (pre @ token # ts) = Inl (Wrap ''unable to parse op code'' EndOfProgram))
   \<and> (parseProgram pre = Inr r \<and> instructionSignatures token = Some sg
       \<and> args_accepted (args sg) ts \<and> length ts < length (args sg)
       \<and> args sg ! length ts = argInt \<and> Atoi t = Inl e
     \<longrightarrow> parseProgram (pre @ token # ts @ t # rest) = Inl (Wrap ''unable to parse op code'' e))
   \<and> nextInt_scanner [] = (Inl EndOfProgram, [])
   \<and> nextString_scanner [] = (Inl EndOfProgram, [])
   \<and> nextInt_scanner (t # sc) = (Atoi t, sc)
   \<and> nextString_scanner (t # sc) = (Inr t, sc)
   \<and> getArgument (t # sc) argString = (Inr (IStr t), sc)
   \<and> (Atoi t = Inr w \<longrightarrow>
        getArgument (t # sc) argInt = (Inr (IInt w), sc)
        \<and> (\<exists>ds. ds \<noteq> [] \<and> list_all is_digit ds
             \<and> ((t = ds \<or> t = CHR ''+'' # ds) \<and> sint w = decimal ds
                \<or> t = CHR ''-'' # ds \<and> sint w = - decimal ds)))"
proof (intro conjI impI)
  assume "parseProgram pre = Inr r \<and> instructionSignatures token = None"
  then show "parseProgram (pre @ token # rest)
          = Inl (Wrap ''unable to parse op code'' (InvalidInstruction token))"
    using parse_error_after_prefix [of pre r token rest "InvalidInstruction token"]
    by (simp add: parseOp_unknown)
next
  assume h: "parseProgram pre = Inr r \<and> instructionSignatures token = Some sg
       \<and> args_accepted (args sg) ts \<and> length ts < length (args sg)"
  then have "fst (parseOp token ts cur) = Inl EndOfProgram" if "length cur = 16" for cur
    using parseOp_short [of token sg ts cur] that by simp
  with h show "parseProgram (pre @ token # ts) = Inl (Wrap ''unable to parse op code'' EndOfProgram)"
    using parse_error_after_prefix [of pre r token ts EndOfProgram] by simp
next
  assume h: "parseProgram pre = Inr r \<and> instructionSignatures token = Some sg
       \<and> args_accepted (args sg) ts \<and> length ts < length (args sg)
       \<and> args sg ! length ts = argInt \<and> Atoi t = Inl e"
  then have "fst (parseOp token (ts @ t # rest) cur) = Inl e" if "length cur = 16" for cur
    using parseOp_bad_int [of token sg ts t e cur rest] that by simp
  with h show "parseProgram (pre @ token # ts @ t # rest) = Inl (Wrap ''unable to parse op code'' e)"
    using parse_error_after_prefix [of pre r token "ts @ t # rest" e] by simp
next
  show "nextInt_scanner [] = (Inl EndOfProgram, [])" by (simp add: nextInt_scanner_def)
  show "nextString_scanner [] = (Inl EndOfProgram, [])" by (simp add: nextString_scanner_def)
  show "nextInt_scanner (t # sc) = (Atoi t, sc)" by (simp add: nextInt_scanner_def)
  show "nextString_scanner (t # sc) = (Inr t, sc)" by (simp add: nextString_scanner_def)
  show "getArgument (t # sc) argString = (Inr (IStr t), sc)"
    by (simp add: getArgument_def nextString_scanner_def argInt_def argString_def)
next
  assume a: "Atoi t = Inr w"
  then show "getArgument (t # sc) argInt = (Inr (IInt w), sc)"
    by (simp add: getArgument_def nextInt_scanner_def)
  from a show "\<exists>ds. ds \<noteq> [] \<and> list_all is_digit ds
             \<and> ((t = ds \<or> t = CHR ''+'' # ds) \<and> sint w = decimal ds
                \<or> t = CHR ''-'' # ds \<and> sint w = - decimal ds)"
    by (rule Atoi_decimal)
qed


theorem parser_errors_witness:
  "parseProgram [''put'', ''foo'', ''put'']
     = Inl (Wrap ''unable to parse op code'' (InvalidInstruction ''foo''))
   \<and> parseProgram [''put'', ''jumpl'', ''10'']
     = Inl (Wrap ''unable to parse op code'' EndOfProgram)
   \<and> parseProgram [''put'', ''jumpl'', ''10'', ''1x'', ''put'']
     = Inl (Wrap ''unable to parse op code'' (AtoiSyntax ''1x''))
   \<and> getArgument [''-12'', ''put''] argInt = (Inr (IInt (- 12)), [''put''])"
proof -
  have pre: "parseProgram [''put''] = Inr ([IOp OpPut], [0])" by code_simp
  have foo: "instructionSignatures ''foo'' = None" by code_simp
  have jumpl: "instructionSignatures ''jumpl''
      = Some \<lparr>op = OpJumpLessThan, args = [argInt, argInt]\<rparr>" by code_simp
  have acc: "args_accepted [argInt, argInt] [''10'']" by code_simp
  have bad: "Atoi ''1x'' = Inl (AtoiSyntax ''1x'')" by code_simp
  have good: "Atoi ''-12'' = Inr (- 12)" by code_simp
  have len: "length [''10''] < length (args \<lparr>op = OpJumpLessThan, args = [argInt, argInt]\<rparr>)"
    by simp
  have kind: "args \<lparr>op = OpJumpLessThan, args = [argInt, argInt]\<rparr> ! length [''10''] = argInt"
    by simp
  have a: "parseProgram ([''put''] @ ''foo'' # [''put''])
     = Inl (Wrap ''unable to parse op code'' (InvalidInstruction ''foo''))"
    using parser_errors [where pre = "[''put'']" and r = "([IOp OpPut], [0])"
        and token = "''foo''" and rest = "[''put'']"] pre foo
    by blast
  have b: "parseProgram ([''put''] @ ''jumpl'' # [''10''])
     = Inl (Wrap ''unable to parse op code'' EndOfProgram)"
    using parser_errors [where pre = "[''put'']" and r = "([IOp OpPut], [0])"
        and token = "''jumpl''" and sg = "\<lparr>op = OpJumpLessThan, args = [argInt, argInt]\<rparr>"
        and ts = "[''10'']"] pre jumpl acc len
    unfolding select_convs by blast
  have c: "parseProgram ([''put''] @ ''jumpl'' # [''10''] @ ''1x'' # [''put''])
     = Inl (Wrap ''unable to parse op code'' (AtoiSyntax ''1x''))"
    using parser_errors [where pre = "[''put'']" and r = "([IOp OpPut], [0])"
        and token = "''jumpl''" and sg = "\<lparr>op = OpJumpLessThan, args = [argInt, argInt]\<rparr>"
        and ts = "[''10'']" and t = "''1x''" and e = "AtoiSyntax ''1x''" and rest = "[''put'']"]
      pre jumpl acc len kind bad
    unfolding select_convs by blast
  have d: "getArgument [''-12'', ''put''] argInt = (Inr (IInt (- 12)), [''put''])"
    using parser_errors [where t = "''-12''" and w = "- 12" and sc = "[''put'']"] good
    by blast
  from a b c d show ?thesis by simp
qed

end
